theory Spec2Isabelle
  imports Complex_Main "HOL-Library.Word"
begin

unbundle bit_operations_syntax

section \<open>Batch playback generator (dpi/dpi_flicker_noise_batch.c)\<close>

text \<open>
  The batch generator never computes with its samples: it zero-fills them (\<open>memset\<close>),
  copies them from a file (\<open>fread\<close>) and returns array elements. A \<open>double\<close> is
  therefore modelled by its object representation, the list of its 8 bytes in memory
  order; \<open>0.0\<close> is the all-zero representation.
\<close>

type_synonym byte = "8 word"
type_synonym double = "byte list"

definition MAX_SAMPLES :: nat where
  "MAX_SAMPLES = 4096"

definition sizeof_double :: nat where
  "sizeof_double = 8"

definition zero_double :: double where
  "zero_double = replicate sizeof_double 0"

text \<open>
  What \<open>fopen(NOISE_DATA_FILE, "rb")\<close> finds at the moment of the call: no stream
  (\<open>NULL\<close>), or a stream that delivers the given bytes.
\<close>

datatype noise_file = No_File | File "byte list"

text \<open>
  The three diagnostic blocks written to \<open>stderr\<close> (the error block of lines 64-72, the
  warning block of lines 87-95 with the count it prints, the info lines 98-106 with the
  count and the previewed samples), and the effects of the loader in the order they happen.
\<close>

datatype diagnostic = Cannot_Open | Partial_Read int | Loaded int "double list"

datatype event = Fopen | Fread | Fclose | Stderr diagnostic

datatype fault = Out_Of_Bounds

text \<open>
  The static variables of the file, and the trace of effects so far (oldest first). The
  two counters are C \<open>int\<close>s; they stay between 0 and \<open>MAX_SAMPLES\<close> (lemma
  \<open>run_loaded\<close> below), far from overflow, and are modelled by \<open>int\<close>.
\<close>

record batch_state =
  preloaded_noise :: "double list"
  current_index :: int
  initialized :: int
  num_samples_loaded :: int
  trace :: "event list"

text \<open>Static storage is zero-initialised.\<close>

definition batch_init :: batch_state where
  "batch_init =
     \<lparr>preloaded_noise = replicate MAX_SAMPLES zero_double,
      current_index = 0,
      initialized = 0,
      num_samples_loaded = 0,
      trace = []\<rparr>"

text \<open>
  \<open>fread(buf, sizeof(double), nmemb, f)\<close> on a stream delivering \<open>bytes\<close>: at most
  \<open>sizeof(double) * nmemb\<close> bytes are stored into the array in order, and the number of
  complete elements is returned. Bytes of a trailing partial element land in the next
  element, whose remaining bytes keep their old content (this is what the usual C
  libraries do; ISO C only says that the value of a partially read element is
  indeterminate).
\<close>

definition fread_double :: "double list \<Rightarrow> nat \<Rightarrow> byte list \<Rightarrow> nat \<times> double list" where
  "fread_double buf nmemb bytes =
     (let got = take (sizeof_double * nmemb) bytes;
          n = length got div sizeof_double;
          whole = map (\<lambda>k. take sizeof_double (drop (sizeof_double * k) got)) [0..<n];
          rest = drop (sizeof_double * n) got
      in (n, if rest = [] then whole @ drop n buf
             else whole @ [rest @ drop (length rest) (buf ! n)] @ drop (Suc n) buf))"

definition init_flicker_noise_batch :: "noise_file \<Rightarrow> batch_state \<Rightarrow> batch_state" where
  "init_flicker_noise_batch f s =
     (case f of
        No_File \<Rightarrow>
          s\<lparr>preloaded_noise := replicate MAX_SAMPLES zero_double,
            num_samples_loaded := int MAX_SAMPLES,
            initialized := 1,
            trace := trace s @ [Fopen, Stderr Cannot_Open]\<rparr>
      | File bytes \<Rightarrow>
          (let (n, buf) = fread_double (preloaded_noise s) MAX_SAMPLES bytes;
               d = (if int n < int MAX_SAMPLES then Partial_Read (int n)
                    else Loaded (int n) (map (\<lambda>i. buf ! i) [0..<min 10 n]))
           in s\<lparr>preloaded_noise := buf,
                num_samples_loaded := int n,
                current_index := 0,
                initialized := 1,
                trace := trace s @ [Fopen, Fread, Fclose, Stderr d]\<rparr>))"

text \<open>Lines 144-146: the loader runs only while \<open>initialized\<close> is still 0.\<close>

definition load_if_needed :: "noise_file \<Rightarrow> batch_state \<Rightarrow> batch_state" where
  "load_if_needed f s = (if initialized s = 0 then init_flicker_noise_batch f s else s)"

text \<open>Lines 149-151: the wrap check.\<close>

definition wrap_index :: "batch_state \<Rightarrow> batch_state" where
  "wrap_index s =
     (if current_index s \<ge> num_samples_loaded s then s\<lparr>current_index := 0\<rparr> else s)"

text \<open>The state at the moment of the read of line 154: loaded and wrapped.\<close>

definition read_state :: "noise_file \<Rightarrow> batch_state \<Rightarrow> batch_state" where
  "read_state f s = wrap_index (load_if_needed f s)"

text \<open>An array read; an index outside the array is undefined behaviour in C, a fault here.\<close>

definition array_read :: "double list \<Rightarrow> int \<Rightarrow> fault + double" where
  "array_read a i = (if 0 \<le> i \<and> i < int (length a) then Inr (a ! nat i) else Inl Out_Of_Bounds)"

definition dpi_flicker_noise_batch :: "noise_file \<Rightarrow> batch_state \<Rightarrow> fault + (double \<times> batch_state)" where
  "dpi_flicker_noise_batch f s =
     (let r = read_state f s
      in case array_read (preloaded_noise r) (current_index r) of
           Inl e \<Rightarrow> Inl e
         | Inr v \<Rightarrow> Inr (v, r\<lparr>current_index := current_index r + 1\<rparr>))"

text \<open>
  A sequence of calls; the list gives what \<open>fopen\<close> would find at each call, so that the
  file may appear, vanish or change between calls. A fault ends the run. (The wrapper of
  lines 169-181 forwards to \<open>dpi_flicker_noise_batch\<close> and logs its first 30 calls; it
  is not modelled.)
\<close>

fun run_batch :: "noise_file list \<Rightarrow> batch_state \<Rightarrow> fault + (double list \<times> batch_state)" where
  "run_batch [] s = Inr ([], s)"
| "run_batch (f # fs) s =
     (case dpi_flicker_noise_batch f s of
        Inl e \<Rightarrow> Inl e
      | Inr (v, s') \<Rightarrow>
          (case run_batch fs s' of
             Inl e \<Rightarrow> Inl e
           | Inr (vs, s'') \<Rightarrow> Inr (v # vs, s'')))"

text \<open>The states at the moment of the read, one per call of a run.\<close>

fun read_states :: "noise_file list \<Rightarrow> batch_state \<Rightarrow> batch_state list" where
  "read_states [] s = []"
| "read_states (f # fs) s =
     read_state f s #
     (case dpi_flicker_noise_batch f s of Inl e \<Rightarrow> [] | Inr (v, s') \<Rightarrow> read_states fs s')"

text \<open>
  The number of distinct elements the playback cycles through: the loaded count, or 1
  when nothing was loaded (the wrap check then resets the index before every read).
\<close>

definition period :: "batch_state \<Rightarrow> nat" where
  "period s = max 1 (nat (num_samples_loaded s))"

text \<open>
  An uninitialised state whose array is not zero, for the example of the fallback: no run
  of the program has it (static storage starts at zero), the loader does not depend on it.
\<close>

definition dirty_state :: batch_state where
  "dirty_state =
     batch_init\<lparr>preloaded_noise := replicate MAX_SAMPLES [1, 2, 3, 4, 5, 6, 7, 8],
                current_index := 7\<rparr>"

section \<open>Streaming generator (dpi/dpi_flicker_noise.c)\<close>

subsection \<open>Double-precision arithmetic\<close>

text \<open>
  The streaming generator computes with its samples. A finite \<open>double\<close> is modelled by
  the real number it denotes, and every arithmetic operation of the code by the exact
  operation followed by \<open>rnd\<close>, rounding to the nearest double with ties to the even
  significand: IEEE 754 binary64 in the default rounding mode, each operation rounded to
  double (\<open>FLT_EVAL_METHOD\<close> 0, as on x86-64 and AArch64). \<open>exponent x\<close> is the binade
  of \<open>x\<close>, not below the binade of the subnormal numbers, and \<open>ulp x\<close> the spacing of
  the doubles there. A decimal literal and the conversion of an \<open>int\<close> round the same
  way (a literal correctly rounded, as GCC and Clang do). The only product of the code
  that feeds an addition, \<open>2.0 * x\<close>, is exact, so contracting it into a fused
  multiply-add gives the same results. All values of this program stay between -10 and
  10; overflow, infinities and NaN are not modelled.
\<close>

definition round_even :: "real \<Rightarrow> int" where
  "round_even y =
     (let f = \<lfloor>y\<rfloor>; d = y - of_int f
      in if d < 1 / 2 then f else if 1 / 2 < d then f + 1 else if even f then f else f + 1)"

definition exponent :: "real \<Rightarrow> int" where
  "exponent x = max (- 1022) \<lfloor>log 2 \<bar>x\<bar>\<rfloor>"

definition ulp :: "real \<Rightarrow> real" where
  "ulp x = 2 powi (exponent x - 52)"

definition rnd :: "real \<Rightarrow> real" where
  "rnd x = of_int (round_even (x / ulp x)) * ulp x"

text \<open>
  The doubles, normal and subnormal: a significand of at most 53 bits at an exponent not
  below the smallest one.
\<close>

definition representable :: "real \<Rightarrow> bool" where
  "representable b \<longleftrightarrow> (\<exists>m k. b = of_int m * 2 powi k \<and> \<bar>m\<bar> < 2 ^ 53 \<and> - 1074 \<le> k)"

subsection \<open>The C library and the generator\<close>

text \<open>
  \<open>rand\<close>, \<open>srand\<close> and \<open>RAND_MAX\<close> belong to the C library, not to the repository, and
  are parameters: \<open>rand_stream L seed k\<close> is what the \<open>k\<close>-th call of \<open>rand()\<close> after
  \<open>srand(seed)\<close> returns (ISO C: the same seed gives the same sequence). The state of the
  library's generator is the seed and the number of calls since it was set.
\<close>

record libc =
  RAND_MAX :: int
  rand_stream :: "nat \<Rightarrow> nat \<Rightarrow> int"

text \<open>
  What ISO C promises of \<open>rand()\<close>: a value between 0 and \<open>RAND_MAX\<close>, which is a
  positive \<open>int\<close> (32 bits).
\<close>

definition rand_in_range :: "libc \<Rightarrow> bool" where
  "rand_in_range L \<longleftrightarrow>
     0 < RAND_MAX L \<and> RAND_MAX L \<le> 2147483647
     \<and> (\<forall>seed k. 0 \<le> rand_stream L seed k \<and> rand_stream L seed k \<le> RAND_MAX L)"

definition N_SOURCES :: nat where
  "N_SOURCES = 10"

definition TARGET_RMS :: real where
  "TARGET_RMS = rnd 0.25"

definition SEED :: nat where
  "SEED = 42"

definition RAW_RMS :: real where
  "RAW_RMS = rnd 1.757"

text \<open>
  The static variables of the file (\<open>initialized'\<close> is its \<open>initialized\<close>; the counter is
  an \<open>unsigned long\<close>, 64 bits on the LP64 platforms the simulator runs on), and the state
  of the library's generator. The array \<open>noise_sources\<close> has \<open>N_SOURCES\<close> elements; the
  loops of the code index it below \<open>N_SOURCES\<close> only, and the statements below are about
  states whose list has that length.
\<close>

record stream_state =
  noise_sources :: "real list"
  sample_counter :: "64 word"
  initialized' :: int
  rand_seed :: nat
  rand_calls :: nat

text \<open>
  Static storage is zero-initialised. The library's generator is in whatever state the
  rest of the process left it in (seed 1 and no call, when nothing else used it).
\<close>

definition stream_init :: "nat \<Rightarrow> nat \<Rightarrow> stream_state" where
  "stream_init seed calls =
     \<lparr>noise_sources = replicate N_SOURCES 0,
      sample_counter = 0,
      initialized' = 0,
      rand_seed = seed,
      rand_calls = calls\<rparr>"

definition srand :: "nat \<Rightarrow> stream_state \<Rightarrow> stream_state" where
  "srand seed s = s\<lparr>rand_seed := seed, rand_calls := 0\<rparr>"

definition rand :: "libc \<Rightarrow> stream_state \<Rightarrow> int \<times> stream_state" where
  "rand L s = (rand_stream L (rand_seed s) (rand_calls s), s\<lparr>rand_calls := rand_calls s + 1\<rparr>)"

text \<open>
  The expression \<open>2.0 * ((double)r / RAND_MAX) - 1.0\<close>: two conversions, a division, a
  multiplication and a subtraction, each rounded.
\<close>

definition uniform :: "libc \<Rightarrow> int \<Rightarrow> real" where
  "uniform L r =
     rnd (rnd (2 * rnd (rnd (real_of_int r) / rnd (real_of_int (RAND_MAX L)))) - 1)"

text \<open>The assignment \<open>noise_sources[i] = 2.0 * ((double)rand() / RAND_MAX) - 1.0\<close>.\<close>

definition set_source :: "libc \<Rightarrow> stream_state \<Rightarrow> nat \<Rightarrow> stream_state" where
  "set_source L s i =
     (let (r, s') = rand L s
      in s'\<lparr>noise_sources := (noise_sources s')[i := uniform L r]\<rparr>)"

definition init_flicker_noise :: "libc \<Rightarrow> stream_state \<Rightarrow> stream_state" where
  "init_flicker_noise L s =
     (let s1 = srand SEED s;
          s2 = foldl (set_source L) s1 [0..<N_SOURCES]
      in s2\<lparr>sample_counter := 0, initialized' := 1\<rparr>)"

text \<open>Lines 98-100: the initialiser runs only while \<open>initialized\<close> is still 0.\<close>

definition ensure_initialized :: "libc \<Rightarrow> stream_state \<Rightarrow> stream_state" where
  "ensure_initialized L s = (if initialized' s = 0 then init_flicker_noise L s else s)"

text \<open>The body of the update loop, lines 110-113, with the test as the code writes it.\<close>

definition update_source :: "libc \<Rightarrow> stream_state \<Rightarrow> nat \<Rightarrow> stream_state" where
  "update_source L s i =
     (if sample_counter s AND (push_bit i 1 - 1) = 0 then set_source L s i else s)"

definition dpi_flicker_noise :: "libc \<Rightarrow> stream_state \<Rightarrow> real \<times> stream_state" where
  "dpi_flicker_noise L s =
     (let s0 = ensure_initialized L s;
          s1 = foldl (update_source L) s0 [0..<N_SOURCES];
          sum = foldl (\<lambda>acc i. rnd (acc + noise_sources s1 ! i)) 0 [0..<N_SOURCES];
          s2 = s1\<lparr>sample_counter := sample_counter s1 + 1\<rparr>;
          noise_sample = rnd (sum * rnd (TARGET_RMS / RAW_RMS))
      in (noise_sample, s2))"

text \<open>A sequence of \<open>n\<close> calls: the samples returned, in order, and the final state.\<close>

fun run_stream :: "libc \<Rightarrow> nat \<Rightarrow> stream_state \<Rightarrow> real list \<times> stream_state" where
  "run_stream L 0 s = ([], s)"
| "run_stream L (Suc n) s =
     (let (v, s') = dpi_flicker_noise L s;
          (vs, s'') = run_stream L n s'
      in (v # vs, s''))"

subsection \<open>Notions used in the statements and proofs\<close>

text \<open>
  The update test of line 110 for source \<open>i\<close> at counter value \<open>c\<close>, and the number of
  sources below \<open>j\<close> that pass it: the number of \<open>rand()\<close> calls the update loop has
  made when it reaches source \<open>j\<close>.
\<close>

definition due :: "64 word \<Rightarrow> nat \<Rightarrow> bool" where
  "due c i \<longleftrightarrow> c AND (push_bit i 1 - 1) = 0"

definition refreshed :: "64 word \<Rightarrow> nat \<Rightarrow> nat" where
  "refreshed c j = length (filter (due c) [0..<j])"


text \<open>
  Two C libraries with the same \<open>RAND_MAX\<close> whose streams for \<open>SEED\<close> agree from the
  \<open>m\<close>-th call on.
\<close>

definition agree_from :: "nat \<Rightarrow> libc \<Rightarrow> libc \<Rightarrow> bool" where
  "agree_from m L L' \<longleftrightarrow>
     RAND_MAX L = RAND_MAX L' \<and> (\<forall>k\<ge>m. rand_stream L SEED k = rand_stream L' SEED k)"

text \<open>An initialised generator that has drawn at least \<open>m\<close> values of the seeded stream.\<close>

definition running :: "nat \<Rightarrow> stream_state \<Rightarrow> bool" where
  "running m s \<longleftrightarrow>
     initialized' s \<noteq> 0 \<and> rand_seed s = SEED \<and> m \<le> rand_calls s
     \<and> length (noise_sources s) = N_SOURCES"

text \<open>
  Concrete inputs for the examples: the sample implementation of \<open>rand\<close> of ISO C
  (7.22.2.2, \<open>RAND_MAX = 32767\<close>) unrolled into a stream; a library that differs from it
  on every seed but \<open>SEED\<close>; a library that differs from it on the first \<open>N_SOURCES\<close>
  draws of every seed; a library whose \<open>rand()\<close> always returns \<open>RAND_MAX\<close>; a library
  whose \<open>rand()\<close> returns 0 at every third call and \<open>RAND_MAX\<close> otherwise; and an
  initialised generator at counter value 4.
\<close>

fun lcg :: "nat \<Rightarrow> nat \<Rightarrow> nat" where
  "lcg next 0 = next"
| "lcg next (Suc k) = (lcg next k * 1103515245 + 12345) mod 2 ^ 32"

definition example_libc :: libc where
  "example_libc =
     \<lparr>RAND_MAX = 32767,
      rand_stream = (\<lambda>seed k. int ((lcg seed (Suc k) div 65536) mod 32768))\<rparr>"

definition other_seeds_libc :: libc where
  "other_seeds_libc =
     example_libc\<lparr>rand_stream := (\<lambda>seed k. if seed = SEED then rand_stream example_libc seed k else 0)\<rparr>"

definition other_init_libc :: libc where
  "other_init_libc =
     example_libc\<lparr>rand_stream := (\<lambda>seed k. if k < N_SOURCES then 0 else rand_stream example_libc seed k)\<rparr>"


definition mixed_libc :: libc where
  "mixed_libc =
     \<lparr>RAND_MAX = 32767, rand_stream = (\<lambda>seed k. if k mod 3 = 0 then 0 else 32767)\<rparr>"

definition example_state :: stream_state where
  "example_state =
     \<lparr>noise_sources = replicate N_SOURCES 0, sample_counter = 4, initialized' = 1,
      rand_seed = SEED, rand_calls = 20\<rparr>"

section \<open>Properties of the batch generator\<close>

subsection \<open>The read\<close>

lemma fread_count:
  "fst (fread_double buf nmemb bytes) = min nmemb (length bytes div sizeof_double)"
  by (auto simp: fread_double_def Let_def sizeof_double_def min_def)

lemma fread_length:
  "length buf = nmemb \<Longrightarrow> length (snd (fread_double buf nmemb bytes)) = nmemb"
  by (auto simp: fread_double_def Let_def sizeof_double_def min_def)

lemma fread_nth:
  "k < min nmemb (length bytes div sizeof_double) \<Longrightarrow>
   snd (fread_double buf nmemb bytes) ! k = take sizeof_double (drop (sizeof_double * k) bytes)"
  by (auto simp: fread_double_def Let_def sizeof_double_def nth_append drop_take)

subsection \<open>Lazy loading\<close>

lemma load_if_needed_initialized: "initialized (load_if_needed f s) \<noteq> 0"
  by (auto simp: load_if_needed_def init_flicker_noise_batch_def Let_def
      split: noise_file.splits prod.splits)

lemma load_if_needed_idem: "load_if_needed g (load_if_needed f s) = load_if_needed f s"
  using load_if_needed_initialized [of f s] by (simp add: load_if_needed_def [of g])

lemma dpi_preloaded:
  "dpi_flicker_noise_batch f (load_if_needed f s) = dpi_flicker_noise_batch f s"
  by (simp add: dpi_flicker_noise_batch_def read_state_def load_if_needed_idem)

lemma run_first: "run_batch (f # fs) (load_if_needed f s) = run_batch (f # fs) s"
  by (simp add: dpi_preloaded)

lemma load_fields:
  "load_if_needed f batch_init =
     (case f of
        No_File \<Rightarrow>
          \<lparr>preloaded_noise = replicate MAX_SAMPLES zero_double, current_index = 0,
           initialized = 1, num_samples_loaded = int MAX_SAMPLES,
           trace = [Fopen, Stderr Cannot_Open]\<rparr>
      | File bytes \<Rightarrow>
          (let r = fread_double (replicate MAX_SAMPLES zero_double) MAX_SAMPLES bytes
           in \<lparr>preloaded_noise = snd r, current_index = 0, initialized = 1,
               num_samples_loaded = int (fst r),
               trace = [Fopen, Fread, Fclose,
                 Stderr (if fst r < MAX_SAMPLES then Partial_Read (int (fst r))
                         else Loaded (int (fst r)) (map (\<lambda>i. snd r ! i) [0..<min 10 (fst r)]))]\<rparr>))"
  by (simp add: load_if_needed_def init_flicker_noise_batch_def batch_init_def Let_def
      split: noise_file.splits prod.splits)

lemma load_wf:
  "initialized (load_if_needed f batch_init) \<noteq> 0"
  "0 \<le> num_samples_loaded (load_if_needed f batch_init)"
  "length (preloaded_noise (load_if_needed f batch_init)) = MAX_SAMPLES"
  "period (load_if_needed f batch_init) \<le> MAX_SAMPLES"
  "current_index (load_if_needed f batch_init) = int 0"
  by (auto simp: load_fields period_def Let_def fread_length fread_count MAX_SAMPLES_def
      split: noise_file.splits)

subsection \<open>One call and many calls on a loaded state\<close>

lemma dpi_loaded:
  assumes "initialized s \<noteq> 0" "0 \<le> num_samples_loaded s"
    and "period s \<le> length (preloaded_noise s)"
    and "current_index s = int i" "i \<le> period s"
  shows "dpi_flicker_noise_batch f s =
     Inr (preloaded_noise s ! (i mod period s), s\<lparr>current_index := int (i mod period s) + 1\<rparr>)"
proof -
  let ?n = "num_samples_loaded s"
  have p: "1 \<le> period s" by (simp add: period_def)
  have ld: "load_if_needed f s = s" using assms(1) by (simp add: load_if_needed_def)
  have w: "current_index (wrap_index s) = int (i mod period s)"
  proof (cases "?n \<le> int i")
    case True
    then have "i = nat ?n \<or> ?n = 0"
      using assms(2,5) by (auto simp: period_def max_def split: if_splits)
    then have "i mod period s = 0"
      by (auto simp: period_def max_def)
    with True show ?thesis by (simp add: wrap_index_def assms(4))
  next
    case False
    then have "i < period s" using assms(2) by (auto simp: period_def max_def)
    with False show ?thesis by (simp add: wrap_index_def assms(4))
  qed
  have rest: "wrap_index s = s\<lparr>current_index := int (i mod period s)\<rparr>"
    using w by (auto simp: wrap_index_def)
  have "i mod period s < length (preloaded_noise s)"
  proof -
    have "i mod period s < period s" using p by simp
    with assms(3) show ?thesis by linarith
  qed
  then show ?thesis
    by (simp add: dpi_flicker_noise_batch_def read_state_def ld rest array_read_def)
qed

lemma run_loaded:
  assumes "initialized s \<noteq> 0" "0 \<le> num_samples_loaded s"
    and "period s \<le> length (preloaded_noise s)"
    and "current_index s = int i" "i \<le> period s"
  shows "\<exists>s'. run_batch fs s =
           Inr (map (\<lambda>k. preloaded_noise s ! ((i + k) mod period s)) [0..<length fs], s')
         \<and> preloaded_noise s' = preloaded_noise s \<and> initialized s' = initialized s
         \<and> num_samples_loaded s' = num_samples_loaded s \<and> trace s' = trace s
         \<and> 0 \<le> current_index s' \<and> current_index s' \<le> int (period s)"
  using assms
proof (induction fs arbitrary: s i)
  case Nil
  then show ?case by simp
next
  case (Cons f fs)
  let ?s1 = "s\<lparr>current_index := int (i mod period s) + 1\<rparr>"
  have step: "dpi_flicker_noise_batch f s = Inr (preloaded_noise s ! (i mod period s), ?s1)"
    using Cons.prems by (rule dpi_loaded)
  have p: "period ?s1 = period s" by (simp add: period_def)
  have p1: "1 \<le> period s" by (simp add: period_def)
  have idx: "current_index ?s1 = int (Suc (i mod period s))" by simp
  have le: "Suc (i mod period s) \<le> period ?s1"
    using p1 by (simp add: p Suc_le_eq)
  from Cons.IH [of ?s1 "Suc (i mod period s)", OF _ _ _ idx le] Cons.prems(1,2,3)
  obtain s' where r: "run_batch fs ?s1 =
      Inr (map (\<lambda>k. preloaded_noise s ! ((Suc (i mod period s) + k) mod period s)) [0..<length fs], s')"
    and k: "preloaded_noise s' = preloaded_noise s" "initialized s' = initialized s"
      "num_samples_loaded s' = num_samples_loaded s" "trace s' = trace s"
      "0 \<le> current_index s'" "current_index s' \<le> int (period s)"
    by (auto simp: p)
  have e: "Suc (i mod period s + k) mod period s = Suc (i + k) mod period s" for k
  proof -
    have "(i mod period s + Suc k) mod period s = (i + Suc k) mod period s"
      by (rule mod_add_left_eq)
    then show ?thesis by simp
  qed
  show ?case
    unfolding run_batch.simps step
    by (simp add: r k e map_upt_Suc del: upt_Suc)
qed

lemma run_from_init:
  "\<exists>s'. run_batch (f # fs) batch_init =
           Inr (map (\<lambda>k. preloaded_noise (load_if_needed f batch_init) !
                        (k mod period (load_if_needed f batch_init))) [0..<Suc (length fs)], s')
         \<and> preloaded_noise s' = preloaded_noise (load_if_needed f batch_init)
         \<and> initialized s' = initialized (load_if_needed f batch_init)
         \<and> num_samples_loaded s' = num_samples_loaded (load_if_needed f batch_init)
         \<and> trace s' = trace (load_if_needed f batch_init)
         \<and> 0 \<le> current_index s' \<and> current_index s' \<le> int (period (load_if_needed f batch_init))"
proof -
  let ?l = "load_if_needed f batch_init"
  have "period ?l \<le> length (preloaded_noise ?l)" by (simp add: load_wf)
  from run_loaded [OF load_wf(1) load_wf(2) this load_wf(5), of "f # fs"]
  show ?thesis by (simp add: run_first del: upt_Suc run_batch.simps)
qed

text \<open>No run faults: every read of every call is inside the array.\<close>

lemma run_batch_never_faults:
  "\<exists>vs s'. run_batch fs batch_init = Inr (vs, s') \<and> length vs = length fs"
proof (cases fs)
  case Nil
  then show ?thesis by simp
next
  case (Cons f fs')
  from run_from_init [of f fs'] show ?thesis unfolding Cons by force
qed

lemma replicate_7: "replicate 7 x = [x, x, x, x, x, x, x]"
  by (simp add: numeral_eq_Suc)

subsection \<open>The cursor and the loaded range\<close>

lemma read_states_in_range:
  assumes "initialized s \<noteq> 0" "1 \<le> num_samples_loaded s"
    and "nat (num_samples_loaded s) \<le> length (preloaded_noise s)"
    and "0 \<le> current_index s" "current_index s \<le> num_samples_loaded s"
  shows "\<forall>r \<in> set (read_states fs s). 0 \<le> current_index r \<and> current_index r < num_samples_loaded r"
  using assms
proof (induction fs arbitrary: s)
  case Nil
  then show ?case by simp
next
  case (Cons f fs)
  let ?r = "read_state f s"
  have r: "?r = wrap_index s" using Cons.prems(1) by (simp add: read_state_def load_if_needed_def)
  have rng: "0 \<le> current_index ?r \<and> current_index ?r < num_samples_loaded ?r"
    using Cons.prems by (auto simp: r wrap_index_def)
  have keep: "initialized ?r = initialized s" "num_samples_loaded ?r = num_samples_loaded s"
    "preloaded_noise ?r = preloaded_noise s"
    by (auto simp: r wrap_index_def)
  have "current_index ?r < int (length (preloaded_noise ?r))"
    using rng Cons.prems(3) by (simp add: keep nat_le_iff)
  then have step: "dpi_flicker_noise_batch f s =
      Inr (preloaded_noise ?r ! nat (current_index ?r), ?r\<lparr>current_index := current_index ?r + 1\<rparr>)"
    using rng by (simp add: dpi_flicker_noise_batch_def array_read_def Let_def)
  have "\<forall>r \<in> set (read_states fs (?r\<lparr>current_index := current_index ?r + 1\<rparr>)).
      0 \<le> current_index r \<and> current_index r < num_samples_loaded r"
    using rng Cons.prems(1,2,3) by (intro Cons.IH) (simp_all add: keep)
  then show ?case using rng by (simp add: step)
qed

text \<open>
  With at least one sample loaded (the file is missing, or it delivers at least one
  complete element), every read of every run is at an index inside the loaded range.
\<close>

lemma loaded_range_invariant:
  assumes "f = No_File \<or> (\<exists>bytes. f = File bytes \<and> sizeof_double \<le> length bytes)"
  shows "\<forall>r \<in> set (read_states (f # fs) batch_init).
           0 \<le> current_index r \<and> current_index r < num_samples_loaded r"
proof -
  let ?l = "load_if_needed f batch_init"
  have rs: "read_states (f # fs) batch_init = read_states (f # fs) ?l"
    by (simp add: dpi_preloaded read_state_def load_if_needed_idem)
  have n: "1 \<le> num_samples_loaded ?l"
    using assms
    by (auto simp: load_fields Let_def fread_count MAX_SAMPLES_def sizeof_double_def)
  have "nat (num_samples_loaded ?l) \<le> length (preloaded_noise ?l)"
    using load_wf(4) [of f] n by (simp add: period_def load_wf(3))
  from read_states_in_range [OF load_wf(1) n this, of "f # fs"]
  show ?thesis unfolding rs using n by (simp add: load_wf del: read_states.simps)
qed

text \<open>
  Claim C1. The claim: every served sample is read at an index with
  \<open>0 \<le> current_index < num_samples_loaded\<close>, for every load outcome, zero samples read
  from an existing file included. On an existing empty file the loader sets
  \<open>num_samples_loaded = 0\<close>; each call then passes the wrap check with \<open>current_index = 0\<close>
  and reads \<open>preloaded_noise[0]\<close>, so the index equals the loaded count at both reads, and
  both calls serve a sample all the same. (\<open>loaded_range_invariant\<close> is the invariant on
  the other load outcomes.)
\<close>

theorem zero_samples_read_outside_loaded_range:
  "map (\<lambda>r. (current_index r, num_samples_loaded r)) (read_states [File [], File []] batch_init)
     = [(0, 0), (0, 0)]
   \<and> (\<exists>s'. run_batch [File [], File []] batch_init = Inr ([zero_double, zero_double], s'))"
  by (simp add: dpi_flicker_noise_batch_def read_state_def wrap_index_def load_if_needed_def
      init_flicker_noise_batch_def fread_double_def array_read_def batch_init_def
      MAX_SAMPLES_def sizeof_double_def Let_def)

subsection \<open>Replay of the file\<close>

text \<open>
  Claim C3. When the file delivers \<open>n \<ge> 1\<close> complete elements (\<open>n\<close> capped at
  \<open>MAX_SAMPLES\<close>), a run of any length never faults and its \<open>k\<close>-th call (from 0)
  returns the bytes \<open>8 * (k mod n) ..< 8 * (k mod n) + 8\<close> of the file: the output replays
  the file content byte for byte, in order, with period \<open>n\<close>. For a file of 4096 elements
  call 4096 (the 4097th) returns what call 0 returned; for a file cut to 100 elements the
  period is 100. What later calls would find on disk does not matter.
\<close>

theorem batch_replays_resource:
  assumes "n = min MAX_SAMPLES (length bytes div sizeof_double)" and "1 \<le> n"
  shows "\<exists>s'. run_batch (File bytes # fs) batch_init =
           Inr (map (\<lambda>k. take sizeof_double (drop (sizeof_double * (k mod n)) bytes))
                  [0..<Suc (length fs)], s')
         \<and> num_samples_loaded s' = int n"
proof -
  let ?l = "load_if_needed (File bytes) batch_init"
  have n: "num_samples_loaded ?l = int n"
    by (simp add: load_fields Let_def fread_count assms(1))
  then have p: "period ?l = n" using assms(2) by (simp add: period_def)
  have b: "preloaded_noise ?l ! (k mod n) = take sizeof_double (drop (sizeof_double * (k mod n)) bytes)" for k
  proof -
    have "k mod n < n" using assms(2) by simp
    then show ?thesis
      by (simp add: load_fields Let_def fread_nth assms(1) del: mod_less_divisor)
  qed
  from run_from_init [of "File bytes" fs] obtain s' where
    "run_batch (File bytes # fs) batch_init =
       Inr (map (\<lambda>k. preloaded_noise ?l ! (k mod n)) [0..<Suc (length fs)], s')"
    "num_samples_loaded s' = int n"
    unfolding p n by blast
  then show ?thesis by (simp only: b) blast
qed

text \<open>
  A file of two complete elements and three stray bytes, read by three calls: the third
  call wraps to the first element.
\<close>

theorem batch_replays_resource_witness:
  "\<exists>s'. run_batch [File [1,2,3,4,5,6,7,8, 9,10,11,12,13,14,15,16, 17,18,19], No_File, File []] batch_init =
           Inr ([[1,2,3,4,5,6,7,8], [9,10,11,12,13,14,15,16], [1,2,3,4,5,6,7,8]], s')
         \<and> num_samples_loaded s' = 2"
  using batch_replays_resource [of 2 "[1,2,3,4,5,6,7,8, 9,10,11,12,13,14,15,16, 17,18,19]" "[No_File, File []]"]
  by (simp add: MAX_SAMPLES_def sizeof_double_def upt_rec del: run_batch.simps)

text \<open>Consequently the results repeat after \<open>n\<close> calls.\<close>

lemma batch_output_periodic:
  assumes "n = min MAX_SAMPLES (length bytes div sizeof_double)" and "1 \<le> n"
    and "run_batch (File bytes # fs) batch_init = Inr (vs, s')" and "k + n < length vs"
  shows "vs ! (k + n) = vs ! k"
proof -
  let ?l = "load_if_needed (File bytes) batch_init"
  have p: "period ?l = n"
    using assms(2) by (simp add: period_def load_fields Let_def fread_count assms(1))
  from run_from_init [of "File bytes" fs] assms(3)
  have vs: "vs = map (\<lambda>k. preloaded_noise ?l ! (k mod n)) [0..<Suc (length fs)]"
    unfolding p by auto
  then have "length vs = Suc (length fs)" by simp
  with assms(4) have "k + n < Suc (length fs)" "k < Suc (length fs)" by simp_all
  then show ?thesis
    unfolding vs by (simp only: nth_map_upt length_upt diff_zero add_0 mod_add_self2)
qed

text \<open>
  The two cases the specification names: a full file of \<open>MAX_SAMPLES\<close> elements, where the
  call after the first \<open>MAX_SAMPLES\<close> repeats the first; a file cut to 100 elements, where
  the results repeat after 100 calls.
\<close>

lemma full_resource_wraps:
  assumes "length bytes = sizeof_double * MAX_SAMPLES"
    and "run_batch (File bytes # fs) batch_init = Inr (vs, s')" and "MAX_SAMPLES < length vs"
  shows "vs ! MAX_SAMPLES = vs ! 0"
proof -
  have "MAX_SAMPLES = min MAX_SAMPLES (length bytes div sizeof_double)"
    by (simp add: assms(1) sizeof_double_def)
  moreover have "1 \<le> MAX_SAMPLES" by (simp add: MAX_SAMPLES_def)
  ultimately have "vs ! (0 + MAX_SAMPLES) = vs ! 0"
    using assms(2) by (rule batch_output_periodic) (simp add: assms(3))
  then show ?thesis by simp
qed

lemma truncated_resource_period:
  assumes "length bytes = sizeof_double * 100"
    and "run_batch (File bytes # fs) batch_init = Inr (vs, s')" and "k + 100 < length vs"
  shows "vs ! (k + 100) = vs ! k" and "num_samples_loaded s' = 100"
proof -
  have n: "100 = min MAX_SAMPLES (length bytes div sizeof_double)"
    by (simp add: assms(1) sizeof_double_def MAX_SAMPLES_def)
  show "vs ! (k + 100) = vs ! k"
    using n _ assms(2,3) by (rule batch_output_periodic) simp
  have "num_samples_loaded (load_if_needed (File bytes) batch_init) = 100"
    by (simp add: load_fields Let_def fread_count n [symmetric])
  with run_from_init [of "File bytes" fs] assms(2)
  show "num_samples_loaded s' = 100" by auto
qed

subsection \<open>Missing file\<close>

text \<open>What the fallback branch of the loader does to any state.\<close>

lemma init_no_file_fields:
  "preloaded_noise (init_flicker_noise_batch No_File s) = replicate MAX_SAMPLES zero_double"
  "num_samples_loaded (init_flicker_noise_batch No_File s) = int MAX_SAMPLES"
  "initialized (init_flicker_noise_batch No_File s) = 1"
  "trace (init_flicker_noise_batch No_File s) = trace s @ [Fopen, Stderr Cannot_Open]"
  "current_index (init_flicker_noise_batch No_File s) = current_index s"
  by (simp_all add: init_flicker_noise_batch_def)

text \<open>Calls on an initialised state whose array is all zeros and fully loaded.\<close>

lemma run_zero_loaded:
  assumes "initialized s \<noteq> 0" and "preloaded_noise s = replicate MAX_SAMPLES zero_double"
    and "num_samples_loaded s = int MAX_SAMPLES" and "0 \<le> current_index s"
  shows "\<exists>s'. run_batch fs s = Inr (replicate (length fs) zero_double, s')
         \<and> preloaded_noise s' = preloaded_noise s \<and> initialized s' = initialized s
         \<and> num_samples_loaded s' = num_samples_loaded s \<and> trace s' = trace s"
  using assms
proof (induction fs arbitrary: s)
  case Nil
  then show ?case by simp
next
  case (Cons f fs)
  let ?r = "read_state f s"
  have r: "?r = wrap_index s" using Cons.prems(1) by (simp add: read_state_def load_if_needed_def)
  have idx: "0 \<le> current_index ?r" "current_index ?r < int MAX_SAMPLES"
    using Cons.prems(3,4) by (auto simp: r wrap_index_def MAX_SAMPLES_def)
  have keep: "preloaded_noise ?r = preloaded_noise s" "initialized ?r = initialized s"
    "num_samples_loaded ?r = num_samples_loaded s" "trace ?r = trace s"
    by (auto simp: r wrap_index_def)
  let ?s1 = "?r\<lparr>current_index := current_index ?r + 1\<rparr>"
  have step: "dpi_flicker_noise_batch f s = Inr (zero_double, ?s1)"
    using idx by (simp add: dpi_flicker_noise_batch_def array_read_def Let_def keep Cons.prems(2))
  have "\<exists>s'. run_batch fs ?s1 = Inr (replicate (length fs) zero_double, s')
         \<and> preloaded_noise s' = preloaded_noise ?s1 \<and> initialized s' = initialized ?s1
         \<and> num_samples_loaded s' = num_samples_loaded ?s1 \<and> trace s' = trace ?s1"
    using Cons.prems idx by (intro Cons.IH) (simp_all add: keep)
  then show ?case by (auto simp: step keep)
qed

text \<open>
  Claim C4. When \<open>fopen\<close> fails at the first call, a run of any length (whatever later
  calls would find on disk) returns \<open>0.0\<close> at every call and ends with the array all
  zeros, \<open>num_samples_loaded = MAX_SAMPLES\<close>, \<open>initialized = 1\<close>, and a trace that holds one
  \<open>fopen\<close> and one diagnostic, the error block: it was written by the first call (the
  run of one call, \<open>fs = []\<close>, already has it) and by no later one. The zeros are the
  loader's doing: from every state, whatever the array held, its fallback branch leaves
  the array all zeros, the count at \<open>MAX_SAMPLES\<close> and the flag set, and appends the one
  diagnostic; and a run that starts uninitialised with any array content returns \<open>0.0\<close>
  at every call.
\<close>

theorem missing_resource_all_zero:
  "(\<exists>s'. run_batch (No_File # fs) batch_init = Inr (replicate (Suc (length fs)) zero_double, s')
       \<and> preloaded_noise s' = replicate MAX_SAMPLES zero_double
       \<and> num_samples_loaded s' = int MAX_SAMPLES
       \<and> initialized s' = 1
       \<and> trace s' = [Fopen, Stderr Cannot_Open])
   \<and> preloaded_noise (init_flicker_noise_batch No_File s) = replicate MAX_SAMPLES zero_double
   \<and> num_samples_loaded (init_flicker_noise_batch No_File s) = int MAX_SAMPLES
   \<and> initialized (init_flicker_noise_batch No_File s) = 1
   \<and> trace (init_flicker_noise_batch No_File s) = trace s @ [Fopen, Stderr Cannot_Open]
   \<and> (initialized s = 0 \<and> 0 \<le> current_index s \<longrightarrow>
        (\<exists>s'. run_batch (No_File # fs) s = Inr (replicate (Suc (length fs)) zero_double, s')
           \<and> preloaded_noise s' = replicate MAX_SAMPLES zero_double
           \<and> num_samples_loaded s' = int MAX_SAMPLES
           \<and> initialized s' = 1
           \<and> trace s' = trace s @ [Fopen, Stderr Cannot_Open]))"
proof -
  have gen: "\<exists>s'. run_batch (No_File # fs) s = Inr (replicate (Suc (length fs)) zero_double, s')
           \<and> preloaded_noise s' = replicate MAX_SAMPLES zero_double
           \<and> num_samples_loaded s' = int MAX_SAMPLES
           \<and> initialized s' = 1
           \<and> trace s' = trace s @ [Fopen, Stderr Cannot_Open]"
    if "initialized s = 0" "0 \<le> current_index s" for s
  proof -
    let ?l = "init_flicker_noise_batch No_File s"
    have ld: "load_if_needed No_File s = ?l" using that(1) by (simp add: load_if_needed_def)
    have "run_batch (No_File # fs) s = run_batch (No_File # fs) ?l"
      using run_first [of No_File fs s] by (simp only: ld)
    moreover have "\<exists>s'. run_batch (No_File # fs) ?l = Inr (replicate (length (No_File # fs)) zero_double, s')
         \<and> preloaded_noise s' = preloaded_noise ?l \<and> initialized s' = initialized ?l
         \<and> num_samples_loaded s' = num_samples_loaded ?l \<and> trace s' = trace ?l"
      using that(2) by (intro run_zero_loaded) (simp_all add: init_no_file_fields)
    ultimately show ?thesis
      by (auto simp add: init_no_file_fields simp del: run_batch.simps)
  qed
  have "initialized batch_init = 0" "0 \<le> current_index batch_init" "trace batch_init = []"
    by (simp_all add: batch_init_def)
  with gen [of batch_init] have "\<exists>s'. run_batch (No_File # fs) batch_init =
         Inr (replicate (Suc (length fs)) zero_double, s')
       \<and> preloaded_noise s' = replicate MAX_SAMPLES zero_double
       \<and> num_samples_loaded s' = int MAX_SAMPLES
       \<and> initialized s' = 1
       \<and> trace s' = [Fopen, Stderr Cannot_Open]"
    by simp
  then show ?thesis using gen [of s] by (simp add: init_no_file_fields del: run_batch.simps replicate.simps)
qed

text \<open>
  An array full of the bytes 1 to 8 and the index at 7: the loader zero-fills the array,
  and three calls return \<open>0.0\<close> although the file exists at the second call.
\<close>

theorem missing_resource_all_zero_witness:
  "initialized dirty_state = 0 \<and> 0 \<le> current_index dirty_state
   \<and> preloaded_noise dirty_state \<noteq> replicate MAX_SAMPLES zero_double
   \<and> preloaded_noise (init_flicker_noise_batch No_File dirty_state) = replicate MAX_SAMPLES zero_double
   \<and> (\<exists>s'. run_batch [No_File, File [1, 2, 3, 4, 5, 6, 7, 8], No_File] dirty_state
             = Inr ([zero_double, zero_double, zero_double], s')
           \<and> preloaded_noise s' = replicate MAX_SAMPLES zero_double
           \<and> num_samples_loaded s' = int MAX_SAMPLES
           \<and> initialized s' = 1
           \<and> trace s' = [Fopen, Stderr Cannot_Open])"
proof -
  have d: "initialized dirty_state = 0" "0 \<le> current_index dirty_state" "trace dirty_state = []"
    by (simp_all add: dirty_state_def batch_init_def)
  have "[1, 2, 3, 4, 5, 6, 7, 8] \<noteq> replicate 8 (0::byte)"
    by (simp add: numeral_eq_Suc)
  then have n: "preloaded_noise dirty_state \<noteq> replicate MAX_SAMPLES zero_double"
    by (simp add: dirty_state_def batch_init_def MAX_SAMPLES_def zero_double_def sizeof_double_def
        replicate_eq_replicate)
  from missing_resource_all_zero [of "[File [1, 2, 3, 4, 5, 6, 7, 8], No_File]" dirty_state]
  show ?thesis
    using d n by (simp add: numeral_3_eq_3 del: run_batch.simps)
qed

subsection \<open>Zero samples read\<close>

text \<open>
  A file of fewer than 8 bytes gives \<open>num_samples_loaded = 0\<close>. No call faults: every
  call reads element 0 of the array and returns it, the stray bytes of the file followed
  by the zeros the element held before. For an empty file that is \<open>0.0\<close>.
\<close>

lemma zero_samples_no_fault:
  assumes "length bytes < sizeof_double"
  shows "\<exists>s'. run_batch (File bytes # fs) batch_init =
           Inr (replicate (Suc (length fs)) (bytes @ drop (length bytes) zero_double), s')
         \<and> num_samples_loaded s' = 0"
proof -
  let ?l = "load_if_needed (File bytes) batch_init"
  have n: "num_samples_loaded ?l = 0"
    using assms by (simp add: load_fields Let_def fread_count)
  then have p: "period ?l = 1" by (simp add: period_def)
  have b: "preloaded_noise ?l ! 0 = bytes @ drop (length bytes) zero_double"
    using assms
    by (auto simp: load_fields Let_def fread_double_def sizeof_double_def MAX_SAMPLES_def zero_double_def)
  from run_from_init [of "File bytes" fs] obtain s' where
    "run_batch (File bytes # fs) batch_init =
       Inr (map (\<lambda>k. preloaded_noise ?l ! (k mod 1)) [0..<Suc (length fs)], s')"
    "num_samples_loaded s' = 0"
    unfolding p n by blast
  then show ?thesis by (simp add: b map_replicate_const del: upt_Suc replicate.simps)
qed

text \<open>
  Claim C5. The claim: with zero samples read from an existing file, every call returns
  the placeholder 0. On a file that holds the single byte 1, \<open>fread\<close> returns 0 and leaves
  that byte in element 0; both calls of the run return the element, whose first byte is
  1, not \<open>0.0\<close>. (The calls do not fault and read inside the array, see
  \<open>zero_samples_no_fault\<close>.)
\<close>

theorem zero_samples_stale_element:
  "\<exists>s'. run_batch [File [1], File [1]] batch_init =
          Inr ([[1, 0, 0, 0, 0, 0, 0, 0], [1, 0, 0, 0, 0, 0, 0, 0]], s')
        \<and> num_samples_loaded s' = 0"
  by (simp add: dpi_flicker_noise_batch_def read_state_def wrap_index_def load_if_needed_def
      init_flicker_noise_batch_def fread_double_def array_read_def batch_init_def
      MAX_SAMPLES_def sizeof_double_def zero_double_def Let_def replicate_7)

subsection \<open>Idempotent load\<close>

text \<open>
  The loader itself has no guard: called twice it opens the file twice. The guard is at
  its only call site, lines 144-146, and \<open>load_if_needed\<close> is the loader as it is invoked.
\<close>

lemma unguarded_loader_reopens:
  "trace (init_flicker_noise_batch No_File (init_flicker_noise_batch No_File batch_init))
     = [Fopen, Stderr Cannot_Open, Fopen, Stderr Cannot_Open]"
  by (simp add: init_flicker_noise_batch_def batch_init_def)

lemma load_from_init: "load_if_needed f batch_init = init_flicker_noise_batch f batch_init"
  by (simp add: load_if_needed_def batch_init_def)

text \<open>
  Claim C9. Once \<open>initialized\<close> is non-zero the guarded loader changes nothing, whatever
  the file system holds by then: no second \<open>fopen\<close> enters the trace, no retry after a
  failure. The loader always leaves \<open>initialized\<close> set, so a second load after a first
  is the identity. Pre-loading (through the guard, or by the loader itself) and then
  calling any number of times gives the same results and the same final state as calling
  from the uninitialised state.
\<close>

theorem load_is_idempotent:
  "(initialized s \<noteq> 0 \<longrightarrow> load_if_needed g s = s)
   \<and> load_if_needed g (load_if_needed f s) = load_if_needed f s
   \<and> run_batch (f # fs) (load_if_needed f batch_init) = run_batch (f # fs) batch_init
   \<and> run_batch (f # fs) (init_flicker_noise_batch f batch_init) = run_batch (f # fs) batch_init"
  unfolding load_from_init [symmetric]
  by (simp add: load_if_needed_idem dpi_preloaded) (simp add: load_if_needed_def)

text \<open>The load fails, the file appears afterwards: the second load does nothing.\<close>

theorem load_is_idempotent_witness:
  "initialized (load_if_needed No_File batch_init) \<noteq> 0
   \<and> load_if_needed (File [1,2,3,4,5,6,7,8]) (load_if_needed No_File batch_init)
       = load_if_needed No_File batch_init
   \<and> run_batch [No_File, File [1,2,3,4,5,6,7,8]] (load_if_needed No_File batch_init)
       = run_batch [No_File, File [1,2,3,4,5,6,7,8]] batch_init
   \<and> run_batch [No_File, File [1,2,3,4,5,6,7,8]] (init_flicker_noise_batch No_File batch_init)
       = run_batch [No_File, File [1,2,3,4,5,6,7,8]] batch_init"
  using load_is_idempotent [of "load_if_needed No_File batch_init" "File [1,2,3,4,5,6,7,8]" No_File
      "[File [1,2,3,4,5,6,7,8]]"]
  by (simp add: load_if_needed_initialized del: run_batch.simps)

section \<open>Properties of the streaming generator\<close>

subsection \<open>Rounding to double\<close>

lemma round_even_cases: "round_even y = \<lfloor>y\<rfloor> \<or> round_even y = \<lfloor>y\<rfloor> + 1"
  by (simp add: round_even_def Let_def)

lemma round_even_of_int: "round_even (of_int k) = k"
  by (simp add: round_even_def Let_def)

lemma round_even_le: "y \<le> of_int k \<Longrightarrow> round_even y \<le> k"
proof (cases "y = of_int k")
  case True
  then show ?thesis by (simp add: round_even_of_int)
next
  case False
  assume "y \<le> of_int k"
  with False have "y < of_int k" by simp
  then have "\<lfloor>y\<rfloor> < k" by (simp add: floor_less_iff)
  then show ?thesis using round_even_cases [of y] by linarith
qed

lemma round_even_ge: "of_int k \<le> y \<Longrightarrow> k \<le> round_even y"
proof -
  assume "of_int k \<le> y"
  then have "k \<le> \<lfloor>y\<rfloor>" by (simp add: le_floor_iff)
  then show ?thesis using round_even_cases [of y] by linarith
qed

lemma ulp_pos: "0 < ulp x"
  by (simp add: ulp_def)

lemma floor_log2_bounds:
  assumes "x \<noteq> 0"
  shows "2 powi \<lfloor>log 2 \<bar>x\<bar>\<rfloor> \<le> \<bar>x\<bar>" and "\<bar>x\<bar> < 2 powi (\<lfloor>log 2 \<bar>x\<bar>\<rfloor> + 1)"
proof -
  have pos: "0 < \<bar>x\<bar>" using assms by simp
  have "\<lfloor>log 2 \<bar>x\<bar>\<rfloor> = \<lfloor>log 2 \<bar>x\<bar>\<rfloor>" ..
  then have "2 powr real_of_int \<lfloor>log 2 \<bar>x\<bar>\<rfloor> \<le> \<bar>x\<bar> \<and> \<bar>x\<bar> < 2 powr real_of_int (\<lfloor>log 2 \<bar>x\<bar>\<rfloor> + 1)"
    using floor_log_eq_powr_iff [OF pos, of 2 "\<lfloor>log 2 \<bar>x\<bar>\<rfloor>"] by simp
  then show "2 powi \<lfloor>log 2 \<bar>x\<bar>\<rfloor> \<le> \<bar>x\<bar>" and "\<bar>x\<bar> < 2 powi (\<lfloor>log 2 \<bar>x\<bar>\<rfloor> + 1)"
    by (simp_all add: powr_real_of_int' del: of_int_add)
qed

text \<open>A normal number lies in its binade; this is how \<open>exponent\<close> and \<open>rnd\<close> are computed.\<close>

lemma exponent_lower: "x \<noteq> 0 \<Longrightarrow> - 1022 < exponent x \<Longrightarrow> 2 powi exponent x \<le> \<bar>x\<bar>"
  using floor_log2_bounds(1) [of x] by (simp add: exponent_def max_def split: if_splits)

lemma exponent_eq:
  assumes "2 powi e \<le> \<bar>x\<bar>" and "\<bar>x\<bar> < 2 powi (e + 1)" and "- 1022 \<le> e"
  shows "exponent x = e"
proof -
  have pos: "0 < \<bar>x\<bar>"
    using assms(1) zero_less_power_int [of "2::real" e] by linarith
  have "2 powr real_of_int e \<le> \<bar>x\<bar> \<and> \<bar>x\<bar> < 2 powr real_of_int (e + 1)"
    using assms(1,2) by (simp add: powr_real_of_int' del: of_int_add)
  then have "\<lfloor>log 2 \<bar>x\<bar>\<rfloor> = e"
    using floor_log_eq_powr_iff [OF pos, of 2 e] by simp
  then show ?thesis using assms(3) by (simp add: exponent_def)
qed

lemma rnd_eval:
  assumes "2 powi e \<le> \<bar>x\<bar>" and "\<bar>x\<bar> < 2 powi (e + 1)" and "- 1022 \<le> e"
  shows "rnd x = of_int (round_even (x / 2 powi (e - 52))) * 2 powi (e - 52)"
  using exponent_eq [OF assms] by (simp add: rnd_def ulp_def)

lemma rnd_0: "rnd 0 = 0"
  by (simp add: rnd_def round_even_def)

text \<open>
  Rounding never crosses a double: a double above \<open>x\<close> is above \<open>rnd x\<close>, a double below
  \<open>x\<close> is below \<open>rnd x\<close>, and a double rounds to itself.
\<close>

lemma rnd_le:
  assumes "x \<le> b" and "representable b"
  shows "rnd x \<le> b"
proof (cases "x = 0")
  case True
  with assms(1) show ?thesis by (simp add: rnd_0)
next
  case False
  from assms(2) obtain m k where b: "b = of_int m * 2 powi k" and m: "\<bar>m\<bar> < 2 ^ 53" and k: "- 1074 \<le> k"
    by (auto simp: representable_def)
  let ?e = "exponent x"
  let ?u = "ulp x"
  have u: "0 < ?u" by (rule ulp_pos)
  show ?thesis
  proof (cases "?e - 52 \<le> k")
    case True
    have "(2::real) powi k = 2 powi (k - (?e - 52)) * 2 powi (?e - 52)"
      by (simp flip: power_int_add)
    also have "(2::real) powi (k - (?e - 52)) = 2 ^ nat (k - (?e - 52))"
      using True by (simp add: power_int_nonneg_exp)
    finally have bu: "b = of_int (m * 2 ^ nat (k - (?e - 52))) * ?u"
      by (simp add: b ulp_def)
    have "x / ?u \<le> b / ?u"
      using assms(1) by (rule divide_right_mono) (rule less_imp_le [OF u])
    also have "b / ?u = of_int (m * 2 ^ nat (k - (?e - 52)))"
      using u by (simp add: bu)
    finally have "round_even (x / ?u) \<le> m * 2 ^ nat (k - (?e - 52))"
      by (rule round_even_le)
    then have "real_of_int (round_even (x / ?u)) \<le> of_int (m * 2 ^ nat (k - (?e - 52)))"
      by (simp only: of_int_le_iff)
    then have "of_int (round_even (x / ?u)) * ?u \<le> of_int (m * 2 ^ nat (k - (?e - 52))) * ?u"
      by (rule mult_right_mono) (rule less_imp_le [OF u])
    then show ?thesis by (simp only: rnd_def bu)
  next
    case small: False
    then have e: "- 1022 < ?e" using k by linarith
    have lo: "2 powi ?e \<le> \<bar>x\<bar>" using False e by (rule exponent_lower)
    have "\<bar>b\<bar> = of_int \<bar>m\<bar> * 2 powi k" by (simp add: b abs_mult)
    also have "\<dots> < 2 ^ 53 * 2 powi k"
    proof -
      have "real_of_int \<bar>m\<bar> < 2 ^ 53" using m by (metis of_int_less_iff of_int_numeral of_int_power)
      then show ?thesis by (simp add: mult_strict_right_mono)
    qed
    also have "\<dots> \<le> 2 ^ 53 * 2 powi (?e - 53)"
    proof -
      have "k \<le> ?e - 53" using small by linarith
      then have "(2::real) powi k \<le> 2 powi (?e - 53)" by (intro power_int_increasing) simp_all
      then show ?thesis by simp
    qed
    also have "\<dots> = 2 powi ?e"
    proof -
      have "(2::real) powi ?e = 2 powi (53 + (?e - 53))" by simp
      also have "\<dots> = 2 powi 53 * 2 powi (?e - 53)" by (subst power_int_add) simp_all
      finally show ?thesis by simp
    qed
    finally have bs: "\<bar>b\<bar> < 2 powi ?e" .
    with lo assms(1) have neg: "x < 0" by linarith
    with lo have "x \<le> - (2 powi ?e)" by linarith
    then have "x / ?u \<le> - (2 powi ?e) / ?u"
      by (rule divide_right_mono) (rule less_imp_le [OF u])
    also have "- (2 powi ?e) / ?u = of_int (- (2 ^ 52))"
    proof -
      have "(2::real) powi ?e = 2 powi (52 + (?e - 52))" by simp
      also have "\<dots> = 2 powi 52 * 2 powi (?e - 52)" by (subst power_int_add) simp_all
      finally show ?thesis using u by (simp add: ulp_def)
    qed
    finally have "round_even (x / ?u) \<le> - (2 ^ 52)" by (rule round_even_le)
    then have "real_of_int (round_even (x / ?u)) \<le> of_int (- (2 ^ 52))"
      by (simp only: of_int_le_iff)
    then have "of_int (round_even (x / ?u)) * ?u \<le> of_int (- (2 ^ 52)) * ?u"
      by (rule mult_right_mono) (rule less_imp_le [OF u])
    also have "of_int (- (2 ^ 52)) * ?u = - (2 powi ?e)"
    proof -
      have "(2::real) powi ?e = 2 powi (52 + (?e - 52))" by simp
      also have "\<dots> = 2 powi 52 * 2 powi (?e - 52)" by (subst power_int_add) simp_all
      finally show ?thesis by (simp add: ulp_def)
    qed
    finally have "rnd x \<le> - (2 powi ?e)" by (simp only: rnd_def)
    with bs show ?thesis by linarith
  qed
qed

lemma rnd_ge:
  assumes "a \<le> x" and "representable a"
  shows "a \<le> rnd x"
proof (cases "x = 0")
  case True
  with assms(1) show ?thesis by (simp add: rnd_0)
next
  case False
  from assms(2) obtain m k where a: "a = of_int m * 2 powi k" and m: "\<bar>m\<bar> < 2 ^ 53" and k: "- 1074 \<le> k"
    by (auto simp: representable_def)
  let ?e = "exponent x"
  let ?u = "ulp x"
  have u: "0 < ?u" by (rule ulp_pos)
  show ?thesis
  proof (cases "?e - 52 \<le> k")
    case True
    have "(2::real) powi k = 2 powi (k - (?e - 52)) * 2 powi (?e - 52)"
      by (simp flip: power_int_add)
    also have "(2::real) powi (k - (?e - 52)) = 2 ^ nat (k - (?e - 52))"
      using True by (simp add: power_int_nonneg_exp)
    finally have au: "a = of_int (m * 2 ^ nat (k - (?e - 52))) * ?u"
      by (simp add: a ulp_def)
    have "a / ?u \<le> x / ?u"
      using assms(1) by (rule divide_right_mono) (rule less_imp_le [OF u])
    moreover have "a / ?u = of_int (m * 2 ^ nat (k - (?e - 52)))"
      using u by (simp add: au)
    ultimately have "of_int (m * 2 ^ nat (k - (?e - 52))) \<le> x / ?u" by simp
    then have "m * 2 ^ nat (k - (?e - 52)) \<le> round_even (x / ?u)"
      by (rule round_even_ge)
    then have "real_of_int (m * 2 ^ nat (k - (?e - 52))) \<le> of_int (round_even (x / ?u))"
      by (simp only: of_int_le_iff)
    then have "of_int (m * 2 ^ nat (k - (?e - 52))) * ?u \<le> of_int (round_even (x / ?u)) * ?u"
      by (rule mult_right_mono) (rule less_imp_le [OF u])
    then show ?thesis by (simp only: rnd_def au)
  next
    case small: False
    then have e: "- 1022 < ?e" using k by linarith
    have lo: "2 powi ?e \<le> \<bar>x\<bar>" using False e by (rule exponent_lower)
    have "\<bar>a\<bar> = of_int \<bar>m\<bar> * 2 powi k" by (simp add: a abs_mult)
    also have "\<dots> < 2 ^ 53 * 2 powi k"
    proof -
      have "real_of_int \<bar>m\<bar> < 2 ^ 53" using m by (metis of_int_less_iff of_int_numeral of_int_power)
      then show ?thesis by (simp add: mult_strict_right_mono)
    qed
    also have "\<dots> \<le> 2 ^ 53 * 2 powi (?e - 53)"
    proof -
      have "k \<le> ?e - 53" using small by linarith
      then have "(2::real) powi k \<le> 2 powi (?e - 53)" by (intro power_int_increasing) simp_all
      then show ?thesis by simp
    qed
    also have "\<dots> = 2 powi ?e"
    proof -
      have "(2::real) powi ?e = 2 powi (53 + (?e - 53))" by simp
      also have "\<dots> = 2 powi 53 * 2 powi (?e - 53)" by (subst power_int_add) simp_all
      finally show ?thesis by simp
    qed
    finally have as: "\<bar>a\<bar> < 2 powi ?e" .
    with lo assms(1) have pos: "0 < x" by linarith
    have eu: "2 powi ?e = of_int (2 ^ 52) * ?u"
    proof -
      have "(2::real) powi ?e = 2 powi (52 + (?e - 52))" by simp
      also have "\<dots> = 2 powi 52 * 2 powi (?e - 52)" by (subst power_int_add) simp_all
      finally show ?thesis by (simp add: ulp_def)
    qed
    from pos lo have "2 powi ?e \<le> x" by linarith
    then have "2 powi ?e / ?u \<le> x / ?u"
      by (rule divide_right_mono) (rule less_imp_le [OF u])
    moreover have "2 powi ?e / ?u = of_int (2 ^ 52)"
      using u by (simp add: eu)
    ultimately have "of_int (2 ^ 52) \<le> x / ?u" by simp
    then have "2 ^ 52 \<le> round_even (x / ?u)" by (rule round_even_ge)
    then have "real_of_int (2 ^ 52) \<le> of_int (round_even (x / ?u))"
      by (simp only: of_int_le_iff)
    then have "of_int (2 ^ 52) * ?u \<le> of_int (round_even (x / ?u)) * ?u"
      by (rule mult_right_mono) (rule less_imp_le [OF u])
    then have "2 powi ?e \<le> rnd x" by (simp only: rnd_def eu)
    with as show ?thesis by linarith
  qed
qed

lemma rnd_exact: "representable x \<Longrightarrow> rnd x = x"
  using rnd_le [of x x] rnd_ge [of x x] by simp

lemma representable_int: "\<bar>n\<bar> < 2 ^ 53 \<Longrightarrow> representable (of_int n)"
  unfolding representable_def by (rule exI [of _ n], rule exI [of _ 0]) simp

lemma rnd_int: "\<bar>n\<bar> < 2 ^ 53 \<Longrightarrow> rnd (of_int n) = of_int n"
  by (rule rnd_exact) (rule representable_int)

lemma representable_dyadic:
  "\<bar>m\<bar> < 2 ^ 53 \<Longrightarrow> - 1074 \<le> k \<Longrightarrow> representable (of_int m * 2 powi k)"
  unfolding representable_def by blast

text \<open>Rounding of the values the examples need, and of a value bounded by a double.\<close>

lemma rnd_1: "rnd 1 = 1"
  using rnd_int [of 1] by simp

lemma rnd_numeral: "(numeral n :: int) < 2 ^ 53 \<Longrightarrow> rnd (numeral n) = numeral n"
  using rnd_int [of "numeral n"] by simp

lemma rnd_neg_numeral: "(numeral n :: int) < 2 ^ 53 \<Longrightarrow> rnd (- numeral n) = - numeral n"
  using rnd_int [of "- numeral n"] by simp

lemma rnd_neg_1: "rnd (- 1) = - 1"
  using rnd_int [of "- 1"] by simp


text \<open>The two constants of the scaling and their quotient, as doubles.\<close>

lemma raw_rms_value: "rnd 1.757 = 7912824545289961 / 2 ^ 52"
  by (subst rnd_eval [of 0]) (simp_all add: round_even_def Let_def)

lemma target_rms_value: "rnd 0.25 = 1 / 4"
  using rnd_exact [OF representable_dyadic [of 1 "- 2"]] by simp

lemma scale_value: "rnd (rnd 0.25 / rnd 1.757) = 5126465142140576 / 2 ^ 55"
  unfolding raw_rms_value target_rms_value
  by (subst rnd_eval [of "- 3"]) (simp_all add: round_even_def Let_def)

lemma rnd_4_scale: "rnd (4 * (5126465142140576 / 2 ^ 55)) = 5126465142140576 / 2 ^ 53"
  using rnd_exact [OF representable_dyadic [of 5126465142140576 "- 53"]] by simp


subsection \<open>The update test\<close>

text \<open>The bit test of the code is the divisibility test of its comment.\<close>

lemma due_iff_dvd: "due c i \<longleftrightarrow> 2 ^ i dvd unat c"
  by (simp add: due_def and_mask_dvd_nat mask_eq_decr_exp)

lemma due_iff_mod: "due c i \<longleftrightarrow> unat c mod 2 ^ i = 0"
  by (simp add: due_iff_dvd dvd_eq_mod_eq_0)

lemma due_mono: "due c i \<Longrightarrow> j \<le> i \<Longrightarrow> due c j"
  unfolding due_iff_dvd by (meson dvd_trans le_imp_power_dvd)

lemma refreshed_due: "due c i \<Longrightarrow> refreshed c i = i"
proof -
  assume d: "due c i"
  have "filter (due c) [0..<i] = [0..<i]"
    by (rule filter_True) (auto intro: due_mono [OF d])
  then show ?thesis by (simp add: refreshed_def)
qed

lemma refreshed_Suc: "refreshed c (Suc j) = refreshed c j + (if due c j then 1 else 0)"
  by (simp add: refreshed_def)

lemma refreshed_mono: "j \<le> k \<Longrightarrow> refreshed c j \<le> refreshed c k"
proof -
  assume "j \<le> k"
  then have "[0..<k] = [0..<j] @ [j..<k]" by (metis le_add_diff_inverse upt_add_eq_append zero_le)
  then show ?thesis by (simp add: refreshed_def)
qed

subsection \<open>The two loops\<close>

lemma set_source_eq:
  "set_source L s i =
     s\<lparr>rand_calls := rand_calls s + 1,
       noise_sources := (noise_sources s)[i := uniform L (rand_stream L (rand_seed s) (rand_calls s))]\<rparr>"
  by (simp add: set_source_def rand_def)

lemma update_source_eq:
  "update_source L s i = (if due (sample_counter s) i then set_source L s i else s)"
  by (simp add: update_source_def due_def)

text \<open>
  The update loop after \<open>j\<close> iterations: it has touched neither the counter, the flag nor
  the seed, has made one \<open>rand()\<close> call per source that passed the test, and each such
  source holds the draw made for it.
\<close>

lemma update_loop:
  assumes "j \<le> length (noise_sources s)"
  shows "sample_counter (foldl (update_source L) s [0..<j]) = sample_counter s
    \<and> initialized' (foldl (update_source L) s [0..<j]) = initialized' s
    \<and> rand_seed (foldl (update_source L) s [0..<j]) = rand_seed s
    \<and> length (noise_sources (foldl (update_source L) s [0..<j])) = length (noise_sources s)
    \<and> rand_calls (foldl (update_source L) s [0..<j]) = rand_calls s + refreshed (sample_counter s) j
    \<and> (\<forall>i < length (noise_sources s).
          noise_sources (foldl (update_source L) s [0..<j]) ! i =
            (if i < j \<and> due (sample_counter s) i
             then uniform L (rand_stream L (rand_seed s) (rand_calls s + refreshed (sample_counter s) i))
             else noise_sources s ! i))"
  using assms
proof (induction j)
  case 0
  then show ?case by (simp add: refreshed_def)
next
  case (Suc j)
  let ?t = "foldl (update_source L) s [0..<j]"
  have st: "foldl (update_source L) s [0..<Suc j] = update_source L ?t j" by simp
  from Suc have IH: "sample_counter ?t = sample_counter s" "initialized' ?t = initialized' s"
    "rand_seed ?t = rand_seed s" "length (noise_sources ?t) = length (noise_sources s)"
    "rand_calls ?t = rand_calls s + refreshed (sample_counter s) j"
    "\<And>i. i < length (noise_sources s) \<Longrightarrow> noise_sources ?t ! i =
            (if i < j \<and> due (sample_counter s) i
             then uniform L (rand_stream L (rand_seed s) (rand_calls s + refreshed (sample_counter s) i))
             else noise_sources s ! i)"
    by simp_all
  have jl: "j < length (noise_sources ?t)" using Suc.prems IH(4) by simp
  show ?case
    unfolding st using jl
    by (auto simp: update_source_eq set_source_eq IH refreshed_Suc nth_list_update less_Suc_eq)
qed

text \<open>The initialisation loop after \<open>j\<close> iterations.\<close>

lemma init_loop:
  assumes "j \<le> length (noise_sources s)"
  shows "sample_counter (foldl (set_source L) s [0..<j]) = sample_counter s
    \<and> initialized' (foldl (set_source L) s [0..<j]) = initialized' s
    \<and> rand_seed (foldl (set_source L) s [0..<j]) = rand_seed s
    \<and> length (noise_sources (foldl (set_source L) s [0..<j])) = length (noise_sources s)
    \<and> rand_calls (foldl (set_source L) s [0..<j]) = rand_calls s + j
    \<and> (\<forall>i < length (noise_sources s).
          noise_sources (foldl (set_source L) s [0..<j]) ! i =
            (if i < j then uniform L (rand_stream L (rand_seed s) (rand_calls s + i))
             else noise_sources s ! i))"
  using assms
proof (induction j)
  case 0
  then show ?case by simp
next
  case (Suc j)
  let ?t = "foldl (set_source L) s [0..<j]"
  have st: "foldl (set_source L) s [0..<Suc j] = set_source L ?t j" by simp
  from Suc have IH: "sample_counter ?t = sample_counter s" "initialized' ?t = initialized' s"
    "rand_seed ?t = rand_seed s" "length (noise_sources ?t) = length (noise_sources s)"
    "rand_calls ?t = rand_calls s + j"
    "\<And>i. i < length (noise_sources s) \<Longrightarrow> noise_sources ?t ! i =
            (if i < j then uniform L (rand_stream L (rand_seed s) (rand_calls s + i))
             else noise_sources s ! i)"
    by simp_all
  have jl: "j < length (noise_sources ?t)" using Suc.prems IH(4) by simp
  show ?case
    unfolding st using jl
    by (auto simp: set_source_eq IH nth_list_update less_Suc_eq)
qed

lemma init_fields:
  assumes "length (noise_sources s) = N_SOURCES"
  shows "sample_counter (init_flicker_noise L s) = 0"
    "initialized' (init_flicker_noise L s) = 1"
    "rand_seed (init_flicker_noise L s) = SEED"
    "rand_calls (init_flicker_noise L s) = N_SOURCES"
    "length (noise_sources (init_flicker_noise L s)) = N_SOURCES"
    "i < N_SOURCES \<Longrightarrow>
       noise_sources (init_flicker_noise L s) ! i = uniform L (rand_stream L SEED i)"
  using init_loop [of N_SOURCES "srand SEED s" L] assms
  by (simp_all add: init_flicker_noise_def Let_def srand_def)

lemma ensure_initialized_length:
  "length (noise_sources s) = N_SOURCES \<Longrightarrow>
   length (noise_sources (ensure_initialized L s)) = N_SOURCES"
  by (simp add: ensure_initialized_def init_fields)

lemma dpi_state:
  "snd (dpi_flicker_noise L s) =
     (foldl (update_source L) (ensure_initialized L s) [0..<N_SOURCES])
       \<lparr>sample_counter := sample_counter (foldl (update_source L) (ensure_initialized L s) [0..<N_SOURCES]) + 1\<rparr>"
  by (simp add: dpi_flicker_noise_def Let_def)

text \<open>One call, from an initialised generator and from an uninitialised one.\<close>

lemma dpi_initialised:
  assumes "length (noise_sources s) = N_SOURCES" and "initialized' s \<noteq> 0"
  shows "noise_sources (snd (dpi_flicker_noise L s)) =
           map (\<lambda>i. if due (sample_counter s) i
                     then uniform L (rand_stream L (rand_seed s) (rand_calls s + i))
                     else noise_sources s ! i) [0..<N_SOURCES]"
    and "sample_counter (snd (dpi_flicker_noise L s)) = sample_counter s + 1"
    and "initialized' (snd (dpi_flicker_noise L s)) = initialized' s"
    and "rand_seed (snd (dpi_flicker_noise L s)) = rand_seed s"
    and "rand_calls (snd (dpi_flicker_noise L s)) = rand_calls s + refreshed (sample_counter s) N_SOURCES"
proof -
  have e: "ensure_initialized L s = s" using assms(2) by (simp add: ensure_initialized_def)
  note l = update_loop [of N_SOURCES s L, unfolded assms(1), OF order_refl]
  show "noise_sources (snd (dpi_flicker_noise L s)) =
           map (\<lambda>i. if due (sample_counter s) i
                     then uniform L (rand_stream L (rand_seed s) (rand_calls s + i))
                     else noise_sources s ! i) [0..<N_SOURCES]"
    using l by (intro nth_equalityI) (auto simp: dpi_state e assms(1) refreshed_due)
  show "sample_counter (snd (dpi_flicker_noise L s)) = sample_counter s + 1"
    and "initialized' (snd (dpi_flicker_noise L s)) = initialized' s"
    and "rand_seed (snd (dpi_flicker_noise L s)) = rand_seed s"
    and "rand_calls (snd (dpi_flicker_noise L s)) = rand_calls s + refreshed (sample_counter s) N_SOURCES"
    using l by (simp_all add: dpi_state e)
qed

lemma all_due_0: "due 0 i"
  by (simp add: due_def)

lemma refreshed_0: "refreshed 0 j = j"
  by (simp add: refreshed_def all_due_0)

lemma dpi_uninitialised:
  assumes "length (noise_sources s) = N_SOURCES" and "initialized' s = 0"
  shows "noise_sources (snd (dpi_flicker_noise L s)) =
           map (\<lambda>i. uniform L (rand_stream L SEED (N_SOURCES + i))) [0..<N_SOURCES]"
    and "sample_counter (snd (dpi_flicker_noise L s)) = 1"
    and "initialized' (snd (dpi_flicker_noise L s)) = 1"
    and "rand_seed (snd (dpi_flicker_noise L s)) = SEED"
    and "rand_calls (snd (dpi_flicker_noise L s)) = N_SOURCES + N_SOURCES"
proof -
  have e: "ensure_initialized L s = init_flicker_noise L s"
    using assms(2) by (simp add: ensure_initialized_def)
  have l0: "length (noise_sources (init_flicker_noise L s)) = N_SOURCES"
    by (simp add: init_fields assms(1))
  note l = update_loop [of N_SOURCES "init_flicker_noise L s" L, unfolded l0, OF order_refl]
  show "noise_sources (snd (dpi_flicker_noise L s)) =
           map (\<lambda>i. uniform L (rand_stream L SEED (N_SOURCES + i))) [0..<N_SOURCES]"
    using l by (intro nth_equalityI)
      (simp_all add: dpi_state e init_fields assms(1) all_due_0 refreshed_0)
  show "sample_counter (snd (dpi_flicker_noise L s)) = 1"
    and "initialized' (snd (dpi_flicker_noise L s)) = 1"
    and "rand_seed (snd (dpi_flicker_noise L s)) = SEED"
    and "rand_calls (snd (dpi_flicker_noise L s)) = N_SOURCES + N_SOURCES"
    using l by (simp_all add: dpi_state e init_fields assms(1) refreshed_0)
qed

lemma refreshed_gt: "due c i \<Longrightarrow> i < n \<Longrightarrow> i < refreshed c n"
proof -
  assume d: "due c i" and "i < n"
  then have "refreshed c (Suc i) \<le> refreshed c n" by (intro refreshed_mono) simp
  then show ?thesis using d by (simp add: refreshed_Suc refreshed_due)
qed

text \<open>The summation loop runs over the array in index order.\<close>

lemma foldl_index:
  "foldl (\<lambda>acc i. rnd (acc + xs ! i)) a [0..<length xs] = foldl (\<lambda>acc x. rnd (acc + x)) a xs"
proof (induction xs rule: rev_induct)
  case Nil
  then show ?case by simp
next
  case (snoc x xs)
  have "foldl (\<lambda>acc i. rnd (acc + (xs @ [x]) ! i)) a [0..<length xs]
      = foldl (\<lambda>acc i. rnd (acc + xs ! i)) a [0..<length xs]"
    by (rule foldl_cong) (simp_all add: nth_append)
  then show ?case by (simp add: snoc.IH)
qed

lemma dpi_value:
  assumes "length (noise_sources (snd (dpi_flicker_noise L s))) = N_SOURCES"
  shows "fst (dpi_flicker_noise L s) =
     rnd (foldl (\<lambda>acc x. rnd (acc + x)) 0 (noise_sources (snd (dpi_flicker_noise L s)))
          * rnd (rnd 0.25 / rnd 1.757))"
proof -
  let ?xs = "noise_sources (snd (dpi_flicker_noise L s))"
  have "fst (dpi_flicker_noise L s) =
      rnd (foldl (\<lambda>acc i. rnd (acc + ?xs ! i)) 0 [0..<N_SOURCES] * rnd (TARGET_RMS / RAW_RMS))"
    by (simp add: dpi_flicker_noise_def Let_def)
  also have "foldl (\<lambda>acc i. rnd (acc + ?xs ! i)) 0 [0..<N_SOURCES]
      = foldl (\<lambda>acc x. rnd (acc + x)) 0 ?xs"
    using foldl_index [of ?xs 0] by (simp add: assms)
  finally show ?thesis by (simp only: TARGET_RMS_def RAW_RMS_def)
qed

text \<open>After \<open>n\<close> calls the counter has advanced by \<open>n\<close> (modulo \<open>2 ^ 64\<close>).\<close>

lemma run_counter:
  assumes "length (noise_sources s) = N_SOURCES" and "initialized' s = 0 \<longrightarrow> sample_counter s = 0"
  shows "sample_counter (snd (run_stream L n s)) = sample_counter s + of_nat n"
  using assms
proof (induction n arbitrary: s)
  case 0
  then show ?case by simp
next
  case (Suc n)
  let ?s' = "snd (dpi_flicker_noise L s)"
  have s': "length (noise_sources ?s') = N_SOURCES" "initialized' ?s' \<noteq> 0"
    "sample_counter ?s' = sample_counter s + 1"
    using Suc.prems dpi_uninitialised [of s L] dpi_initialised [of s L]
    by (cases "initialized' s = 0"; simp)+
  have "snd (run_stream L (Suc n) s) = snd (run_stream L n ?s')"
    by (simp add: case_prod_beta Let_def)
  then show ?case
    using Suc.IH [of ?s'] s' by simp
qed

subsection \<open>The drawn values and the example libraries\<close>

lemma uniform_bounds:
  assumes "rand_in_range L"
  shows "- 1 \<le> uniform L (rand_stream L seed k) \<and> uniform L (rand_stream L seed k) \<le> 1"
proof -
  let ?r = "rand_stream L seed k" and ?m = "RAND_MAX L"
  from assms have m: "0 < ?m" "?m \<le> 2147483647" and r: "0 \<le> ?r" "?r \<le> ?m"
    by (simp_all add: rand_in_range_def)
  have er: "rnd (real_of_int ?r) = real_of_int ?r" and em: "rnd (real_of_int ?m) = real_of_int ?m"
    using m r by (simp_all add: rnd_int)
  let ?q = "rnd (real_of_int ?r / real_of_int ?m)"
  have "0 \<le> real_of_int ?r / real_of_int ?m" "real_of_int ?r / real_of_int ?m \<le> 1"
    using m r by simp_all
  then have q: "0 \<le> ?q" "?q \<le> 1"
    using representable_int [of 0] representable_int [of 1]
    by (auto intro: rnd_ge rnd_le)
  let ?t = "rnd (2 * ?q)"
  have t: "0 \<le> ?t" "?t \<le> 2"
    using q representable_int [of 0] representable_int [of 2]
    by (auto intro: rnd_ge rnd_le)
  have "- 1 \<le> rnd (?t - 1)" "rnd (?t - 1) \<le> 1"
    using t representable_int [of "- 1"] representable_int [of 1]
    by (auto intro: rnd_ge rnd_le)
  then show ?thesis by (simp add: uniform_def er em)
qed


lemma mixed_libc_in_range: "rand_in_range mixed_libc"
  by (simp add: rand_in_range_def mixed_libc_def)


subsection \<open>Refresh cadence\<close>

text \<open>
  Claim C2. On every call and for every source \<open>i\<close> of the ten: if the counter at the
  start of the call is a multiple of \<open>2 ^ i\<close>, the source holds after the call the value
  \<open>2.0 * ((double)r / RAND_MAX) - 1.0\<close>, computed in double precision, of a draw \<open>r\<close>
  made during the call (draw number \<open>rand_calls + i\<close> of the stream; on the first call,
  which seeds the library and draws ten values before, draw number \<open>N_SOURCES + i\<close> of the
  stream of \<open>SEED\<close>), and that value lies in \<open>[-1, 1]\<close>; otherwise the source is what it
  was at the start of the call. The call leaves the generator initialised and the counter
  one higher, so the statement applies to the next call. The state \<open>s\<close> is any state of
  the program: initialised, or uninitialised with the counter at 0 as static storage has
  it. The counter is read as an unsigned 64-bit number; \<open>2 ^ i\<close> divides \<open>2 ^ 64\<close>, so the
  cadence is not disturbed when the counter wraps.
\<close>

theorem sources_refresh_cadence:
  assumes "rand_in_range L" and "length (noise_sources s) = N_SOURCES" and "i < N_SOURCES"
    and "initialized' s = 0 \<longrightarrow> sample_counter s = 0"
  shows "let s' = snd (dpi_flicker_noise L s);
             seed = (if initialized' s = 0 then SEED else rand_seed s);
             k = (if initialized' s = 0 then N_SOURCES else rand_calls s) + i
         in (if unat (sample_counter s) mod 2 ^ i = 0
             then noise_sources s' ! i =
                    rnd (rnd (2 * rnd (rnd (real_of_int (rand_stream L seed k))
                                       / rnd (real_of_int (RAND_MAX L)))) - 1)
                \<and> - 1 \<le> noise_sources s' ! i \<and> noise_sources s' ! i \<le> 1
                \<and> k < rand_calls s'
             else noise_sources s' ! i = noise_sources s ! i)
            \<and> rand_seed s' = seed
            \<and> initialized' s' \<noteq> 0
            \<and> sample_counter s' = sample_counter s + 1"
proof (cases "initialized' s = 0")
  case True
  then have c: "sample_counter s = 0" using assms(4) by simp
  note d = dpi_uninitialised [OF assms(2) True, of L]
  have "noise_sources (snd (dpi_flicker_noise L s)) ! i = uniform L (rand_stream L SEED (N_SOURCES + i))"
    using assms(3) by (simp add: d(1))
  then show ?thesis
    using uniform_bounds [OF assms(1), of SEED "N_SOURCES + i"] assms(3)
    by (simp add: Let_def True c d(2,3,4,5) uniform_def)
next
  case False
  note d = dpi_initialised [OF assms(2) False, of L]
  have src: "noise_sources (snd (dpi_flicker_noise L s)) ! i =
      (if due (sample_counter s) i
       then uniform L (rand_stream L (rand_seed s) (rand_calls s + i))
       else noise_sources s ! i)"
    using assms(3) by (simp add: d(1))
  show ?thesis
  proof (cases "due (sample_counter s) i")
    case due: True
    with src show ?thesis
      using uniform_bounds [OF assms(1), of "rand_seed s" "rand_calls s + i"]
        refreshed_gt [OF due assms(3)] False
      by (simp add: Let_def d(2,3,4,5) uniform_def due_iff_mod [symmetric])
  next
    case nd: False
    with src show ?thesis
      using False by (simp add: Let_def d(2,3,4,5) due_iff_mod [symmetric])
  qed
qed

text \<open>
  At counter value 4 with 20 draws made, sources 0 to 2 are refreshed with draws 20 to 22
  (source 1 gets the draw 0, hence -1, source 2 the draw \<open>RAND_MAX\<close>, hence 1) and source
  3 keeps its value; on the first call of a fresh generator source 2 gets draw 12.
\<close>

theorem sources_refresh_cadence_witness:
  "rand_in_range mixed_libc
   \<and> length (noise_sources example_state) = N_SOURCES
   \<and> initialized' example_state \<noteq> 0
   \<and> noise_sources (snd (dpi_flicker_noise mixed_libc example_state)) ! 1 = - 1
   \<and> noise_sources (snd (dpi_flicker_noise mixed_libc example_state)) ! 2 = 1
   \<and> noise_sources (snd (dpi_flicker_noise mixed_libc example_state)) ! 3 = 0
   \<and> 22 < rand_calls (snd (dpi_flicker_noise mixed_libc example_state))
   \<and> sample_counter (snd (dpi_flicker_noise mixed_libc example_state)) = 5
   \<and> length (noise_sources (stream_init 1 0)) = N_SOURCES
   \<and> sample_counter (stream_init 1 0) = 0
   \<and> noise_sources (snd (dpi_flicker_noise mixed_libc (stream_init 1 0))) ! 2 = - 1
   \<and> initialized' (snd (dpi_flicker_noise mixed_libc (stream_init 1 0))) \<noteq> 0
   \<and> sample_counter (snd (dpi_flicker_noise mixed_libc (stream_init 1 0))) = 1"
proof -
  have l: "length (noise_sources example_state) = N_SOURCES"
    and i: "initialized' example_state = 0 \<longrightarrow> sample_counter example_state = 0"
    by (simp_all add: example_state_def)
  have l0: "length (noise_sources (stream_init 1 0)) = N_SOURCES"
    and i0: "initialized' (stream_init 1 0) = 0 \<longrightarrow> sample_counter (stream_init 1 0) = 0"
    by (simp_all add: stream_init_def)
  have n: "(1::nat) < N_SOURCES" "(2::nat) < N_SOURCES" "(3::nat) < N_SOURCES"
    by (simp_all add: N_SOURCES_def)
  from sources_refresh_cadence [OF mixed_libc_in_range l n(1) i]
    sources_refresh_cadence [OF mixed_libc_in_range l n(2) i]
    sources_refresh_cadence [OF mixed_libc_in_range l n(3) i]
    sources_refresh_cadence [OF mixed_libc_in_range l0 n(2) i0]
  show ?thesis
    using mixed_libc_in_range l l0
    by (simp add: Let_def example_state_def stream_init_def mixed_libc_def N_SOURCES_def SEED_def
        rnd_0 rnd_1 rnd_neg_1 rnd_numeral)
qed

subsection \<open>The returned sample\<close>

text \<open>
  Claim C7. Every call returns \<open>sum * (TARGET_RMS / RAW_RMS)\<close> as the code computes it in
  double precision: \<open>sum\<close> is the sum of the ten source values as they are after the
  update of this call (each given here from the state at the start of the call), added
  in index order from \<open>0.0\<close>, and the constants are the doubles of 0.25 and 1.757. The
  call leaves the counter one above its value at the start of the call and the generator
  initialised; after \<open>n\<close> calls the counter has advanced by \<open>n\<close> (modulo \<open>2 ^ 64\<close>, the
  width of the counter).
\<close>

theorem sample_is_scaled_sum:
  assumes "length (noise_sources s) = N_SOURCES" and "initialized' s = 0 \<longrightarrow> sample_counter s = 0"
  shows "let (v, s') = dpi_flicker_noise L s;
             seed = (if initialized' s = 0 then SEED else rand_seed s);
             k = (if initialized' s = 0 then N_SOURCES else rand_calls s);
             xs = map (\<lambda>i. if unat (sample_counter s) mod 2 ^ i = 0
                             then rnd (rnd (2 * rnd (rnd (real_of_int (rand_stream L seed (k + i)))
                                                     / rnd (real_of_int (RAND_MAX L)))) - 1)
                             else noise_sources s ! i) [0..<10]
         in noise_sources s' = xs
            \<and> v = rnd (foldl (\<lambda>acc x. rnd (acc + x)) 0 xs * rnd (rnd 0.25 / rnd 1.757))
            \<and> sample_counter s' = sample_counter s + 1
            \<and> initialized' s' \<noteq> 0
            \<and> sample_counter (snd (run_stream L n s)) = sample_counter s + of_nat n"
proof -
  let ?s' = "snd (dpi_flicker_noise L s)"
  let ?seed = "if initialized' s = 0 then SEED else rand_seed s"
  let ?k = "if initialized' s = 0 then N_SOURCES else rand_calls s"
  let ?xs = "map (\<lambda>i. if unat (sample_counter s) mod 2 ^ i = 0
                       then rnd (rnd (2 * rnd (rnd (real_of_int (rand_stream L ?seed (?k + i)))
                                               / rnd (real_of_int (RAND_MAX L)))) - 1)
                       else noise_sources s ! i) [0..<10]"
  have all: "noise_sources ?s' = ?xs \<and> sample_counter ?s' = sample_counter s + 1
      \<and> initialized' ?s' \<noteq> 0"
  proof (cases "initialized' s = 0")
    case True
    then have z: "sample_counter s = 0" using assms(2) by simp
    note d = dpi_uninitialised [OF assms(1) True, of L]
    show ?thesis by (simp add: d True z uniform_def N_SOURCES_def)
  next
    case False
    note d = dpi_initialised [OF assms(1) False, of L]
    show ?thesis using False by (simp add: d uniform_def due_iff_mod N_SOURCES_def)
  qed
  then have xs: "noise_sources ?s' = ?xs" and c: "sample_counter ?s' = sample_counter s + 1"
    and f: "initialized' ?s' \<noteq> 0" by simp_all
  have l: "length (noise_sources ?s') = N_SOURCES" by (simp add: xs N_SOURCES_def)
  have v: "fst (dpi_flicker_noise L s) =
      rnd (foldl (\<lambda>acc x. rnd (acc + x)) 0 ?xs * rnd (rnd 0.25 / rnd 1.757))"
    using dpi_value [OF l] by (simp only: xs)
  have r: "sample_counter (snd (run_stream L n s)) = sample_counter s + of_nat n"
    using assms by (rule run_counter)
  show ?thesis
    using xs v c f r by (simp only: Let_def case_prod_beta) simp
qed

text \<open>
  The first call of a fresh generator with draws 10 to 19 of a library that returns 0 at
  every third call and \<open>RAND_MAX\<close> otherwise: the sources sum to 4 and the sample is the
  double \<open>4.0 * (0.25 / 1.757)\<close>; five calls leave the counter at 5.
\<close>

theorem sample_is_scaled_sum_witness:
  "length (noise_sources (stream_init 1 0)) = N_SOURCES
   \<and> sample_counter (stream_init 1 0) = 0
   \<and> noise_sources (snd (dpi_flicker_noise mixed_libc (stream_init 1 0)))
       = [1, 1, - 1, 1, 1, - 1, 1, 1, - 1, 1]
   \<and> fst (dpi_flicker_noise mixed_libc (stream_init 1 0)) = 5126465142140576 / 2 ^ 53
   \<and> sample_counter (snd (dpi_flicker_noise mixed_libc (stream_init 1 0))) = 1
   \<and> sample_counter (snd (run_stream mixed_libc 5 (stream_init 1 0))) = 5"
proof -
  have l0: "length (noise_sources (stream_init 1 0)) = N_SOURCES"
    and i0: "initialized' (stream_init 1 0) = 0 \<longrightarrow> sample_counter (stream_init 1 0) = 0"
    and c0: "sample_counter (stream_init 1 0) = 0" and f0: "initialized' (stream_init 1 0) = 0"
    by (simp_all add: stream_init_def)
  have val: "rnd (4 * rnd (rnd 0.25 / rnd 1.757)) = 5126465142140576 / 2 ^ 53"
    unfolding scale_value by (rule rnd_4_scale)
  from sample_is_scaled_sum [OF l0 i0, of mixed_libc 5]
  show ?thesis
    using l0 c0 f0 val
    by (simp add: Let_def case_prod_beta mixed_libc_def N_SOURCES_def SEED_def upt_rec
        rnd_0 rnd_1 rnd_neg_1 rnd_numeral del: run_stream.simps)
qed

subsection \<open>Magnitude of the output\<close>













text \<open>
  Evaluated in double precision, the expression \<open>10 * 0.25 / 1.757\<close> of the claim is
  that same double: a comparison of the samples with it in doubles never fails.
\<close>

lemma claimed_bound_in_double:
  "rnd (rnd (10 * rnd 0.25) / rnd 1.757) = 6408081427675720 / 2 ^ 52"
proof -
  have "rnd (10 * rnd 0.25) = 5 / 2"
    unfolding target_rms_value
    using rnd_exact [OF representable_dyadic [of 5 "- 1"]] by simp
  then show ?thesis
    unfolding raw_rms_value
    by (simp only:) (subst rnd_eval [of 0], simp_all add: round_even_def Let_def)
qed

subsection \<open>Determinism\<close>

lemma uniform_agree:
  "agree_from m L L' \<Longrightarrow> m \<le> k \<Longrightarrow>
   uniform L (rand_stream L SEED k) = uniform L' (rand_stream L' SEED k)"
  by (simp add: agree_from_def uniform_def)

text \<open>
  The update loop gives the same state under two libraries that agree from draw \<open>m\<close> on,
  from two states that have drawn at least \<open>m\<close> values and differ at most in sources that
  are about to be refreshed.
\<close>

lemma update_loop_agree:
  assumes a: "agree_from m L L'"
    and len: "length (noise_sources s) = N_SOURCES" "length (noise_sources s') = N_SOURCES"
    and same: "sample_counter s' = sample_counter s" "initialized' s' = initialized' s"
      "rand_seed s = SEED" "rand_seed s' = SEED" "rand_calls s' = rand_calls s"
    and m: "m \<le> rand_calls s"
    and kept: "\<And>i. i < N_SOURCES \<Longrightarrow> \<not> due (sample_counter s) i \<Longrightarrow>
                 noise_sources s' ! i = noise_sources s ! i"
  shows "foldl (update_source L') s' [0..<N_SOURCES] = foldl (update_source L) s [0..<N_SOURCES]"
proof -
  let ?t = "foldl (update_source L) s [0..<N_SOURCES]"
  let ?t' = "foldl (update_source L') s' [0..<N_SOURCES]"
  note l = update_loop [of N_SOURCES s L, unfolded len, OF order_refl]
  note l' = update_loop [of N_SOURCES s' L', unfolded len, OF order_refl]
  have "noise_sources ?t' = noise_sources ?t"
  proof (rule nth_equalityI)
    show "length (noise_sources ?t') = length (noise_sources ?t)"
      using l l' by (simp add: len)
  next
    fix i assume "i < length (noise_sources ?t')"
    then have i: "i < N_SOURCES" using l' by (simp add: len)
    show "noise_sources ?t' ! i = noise_sources ?t ! i"
    proof (cases "due (sample_counter s) i")
      case True
      have "uniform L' (rand_stream L' SEED (rand_calls s + refreshed (sample_counter s) i))
          = uniform L (rand_stream L SEED (rand_calls s + refreshed (sample_counter s) i))"
        using m by (intro uniform_agree [OF a, symmetric]) simp
      then show ?thesis using l l' i True by (simp add: same)
    next
      case False
      then show ?thesis using l l' i kept [OF i False] by (simp add: same)
    qed
  qed
  moreover have "sample_counter ?t' = sample_counter ?t" "initialized' ?t' = initialized' ?t"
    "rand_seed ?t' = rand_seed ?t" "rand_calls ?t' = rand_calls ?t"
    using l l' by (simp_all add: same)
  moreover have "stream_state.more ?t' = stream_state.more ?t" by simp
  ultimately show ?thesis by (rule stream_state.equality)
qed

lemma dpi_from_update:
  "foldl (update_source L') (ensure_initialized L' s') [0..<N_SOURCES]
     = foldl (update_source L) (ensure_initialized L s) [0..<N_SOURCES] \<Longrightarrow>
   dpi_flicker_noise L' s' = dpi_flicker_noise L s"
  by (simp add: dpi_flicker_noise_def Let_def)

lemma dpi_running_agree:
  assumes "agree_from m L L'" "running m s"
  shows "dpi_flicker_noise L' s = dpi_flicker_noise L s"
    and "running m (snd (dpi_flicker_noise L s))"
proof -
  have e: "ensure_initialized L s = s" "ensure_initialized L' s = s"
    using assms(2) by (simp_all add: ensure_initialized_def running_def)
  have "foldl (update_source L') s [0..<N_SOURCES] = foldl (update_source L) s [0..<N_SOURCES]"
    using assms by (intro update_loop_agree [of m]) (simp_all add: running_def)
  then show "dpi_flicker_noise L' s = dpi_flicker_noise L s"
    by (intro dpi_from_update) (simp add: e)
  have len: "length (noise_sources s) = N_SOURCES" using assms(2) by (simp add: running_def)
  note l = update_loop [of N_SOURCES s L, unfolded len, OF order_refl]
  show "running m (snd (dpi_flicker_noise L s))"
    using assms(2) l by (simp add: dpi_state e running_def)
qed

lemma run_running_agree:
  assumes "agree_from m L L'"
  shows "running m s \<Longrightarrow> run_stream L' n s = run_stream L n s"
proof (induction n arbitrary: s)
  case 0
  then show ?case by simp
next
  case (Suc n)
  from dpi_running_agree [OF assms Suc.prems]
  have d: "dpi_flicker_noise L' s = dpi_flicker_noise L s"
    and r: "running m (snd (dpi_flicker_noise L s))" by simp_all
  show ?case
    by (simp add: d Suc.IH [OF r] case_prod_beta Let_def)
qed

lemma first_call_agree:
  assumes "agree_from N_SOURCES L L'"
  shows "dpi_flicker_noise L' (stream_init seed' calls') = dpi_flicker_noise L (stream_init seed calls)"
    and "running N_SOURCES (snd (dpi_flicker_noise L (stream_init seed calls)))"
proof -
  let ?s = "stream_init seed calls" and ?s' = "stream_init seed' calls'"
  have len: "length (noise_sources ?s) = N_SOURCES" "length (noise_sources ?s') = N_SOURCES"
    by (simp_all add: stream_init_def)
  have e: "ensure_initialized L ?s = init_flicker_noise L ?s"
    "ensure_initialized L' ?s' = init_flicker_noise L' ?s'"
    by (simp_all add: ensure_initialized_def stream_init_def)
  have all_due: "due 0 i" for i by (simp add: due_def)
  have "foldl (update_source L') (init_flicker_noise L' ?s') [0..<N_SOURCES]
      = foldl (update_source L) (init_flicker_noise L ?s) [0..<N_SOURCES]"
    using assms
    by (intro update_loop_agree [of N_SOURCES]) (simp_all add: init_fields len all_due)
  then show "dpi_flicker_noise L' ?s' = dpi_flicker_noise L ?s"
    by (intro dpi_from_update) (simp add: e)
  have l0: "length (noise_sources (init_flicker_noise L ?s)) = N_SOURCES"
    by (simp add: init_fields len)
  note l = update_loop [of N_SOURCES "init_flicker_noise L ?s" L, unfolded l0, OF order_refl]
  show "running N_SOURCES (snd (dpi_flicker_noise L ?s))"
    using l by (simp add: dpi_state e running_def init_fields len)
qed

lemma run_stream_agree:
  assumes "agree_from N_SOURCES L L'"
  shows "fst (run_stream L' n (stream_init seed' calls')) = fst (run_stream L n (stream_init seed calls))"
proof (cases n)
  case 0
  then show ?thesis by simp
next
  case (Suc k)
  have d: "dpi_flicker_noise L' (stream_init seed' calls') = dpi_flicker_noise L (stream_init seed calls)"
    using assms by (rule first_call_agree(1))
  have r: "running N_SOURCES (snd (dpi_flicker_noise L (stream_init seed calls)))"
    using assms by (rule first_call_agree(2))
  show ?thesis
    unfolding Suc
    by (simp add: d run_running_agree [OF assms r] case_prod_beta Let_def)
qed

lemma first_call_sources:
  "noise_sources (snd (dpi_flicker_noise L (stream_init seed calls)))
     = map (\<lambda>i. uniform L (rand_stream L SEED (N_SOURCES + i))) [0..<N_SOURCES]"
proof -
  let ?s = "stream_init seed calls"
  have len: "length (noise_sources ?s) = N_SOURCES" by (simp add: stream_init_def)
  have e: "ensure_initialized L ?s = init_flicker_noise L ?s"
    by (simp add: ensure_initialized_def stream_init_def)
  have l0: "length (noise_sources (init_flicker_noise L ?s)) = N_SOURCES"
    by (simp add: init_fields len)
  note l = update_loop [of N_SOURCES "init_flicker_noise L ?s" L, unfolded l0, OF order_refl]
  have all_due: "due 0 i" for i by (simp add: due_def)
  show ?thesis
    using l
    by (intro nth_equalityI)
      (simp_all add: dpi_state e init_fields len all_due refreshed_due)
qed

text \<open>
  Claim C8. Two fresh generators give the same samples for any number of calls, whatever
  state the library's generator was in before the first call of each (seed and number of
  earlier calls), provided \<open>srand(SEED)\<close> starts the same stream for both: the samples
  are a function of that stream and of \<open>RAND_MAX\<close> alone.
\<close>

theorem streaming_deterministic:
  assumes "RAND_MAX L = RAND_MAX L'" and "\<forall>k. rand_stream L SEED k = rand_stream L' SEED k"
  shows "fst (run_stream L n (stream_init seed calls)) = fst (run_stream L' n (stream_init seed' calls'))"
proof -
  have "agree_from N_SOURCES L L'" using assms by (simp add: agree_from_def)
  then show ?thesis by (rule run_stream_agree [symmetric])
qed

text \<open>
  Two libraries that agree on the stream of \<open>SEED\<close> only, and two processes that used
  \<open>rand\<close> differently before their first sample.
\<close>

theorem streaming_deterministic_witness:
  "RAND_MAX example_libc = RAND_MAX other_seeds_libc
   \<and> (\<forall>k. rand_stream example_libc SEED k = rand_stream other_seeds_libc SEED k)
   \<and> fst (run_stream example_libc 3 (stream_init 1 0))
       = fst (run_stream other_seeds_libc 3 (stream_init 7 5))"
proof -
  have m: "RAND_MAX example_libc = RAND_MAX other_seeds_libc"
    by (simp add: other_seeds_libc_def)
  have s: "\<forall>k. rand_stream example_libc SEED k = rand_stream other_seeds_libc SEED k"
    by (simp add: other_seeds_libc_def)
  from streaming_deterministic [OF m s, of 3 1 0 7 5] show ?thesis
    using m s by simp
qed

subsection \<open>The draws of the initialisation\<close>

text \<open>
  Claim C10. The first call of a fresh generator overwrites all ten sources in its update
  loop: after it they hold draws 10 to 19 of the seeded stream (the 11th to the 20th), in
  order. The samples of a run of any length are the same for two libraries that agree
  from draw 10 on: the ten draws of the initialisation influence no sample.
\<close>

theorem init_draws_never_observed:
  assumes "RAND_MAX L = RAND_MAX L'" and "\<forall>k\<ge>N_SOURCES. rand_stream L SEED k = rand_stream L' SEED k"
  shows "noise_sources (snd (dpi_flicker_noise L (stream_init seed calls)))
           = map (\<lambda>i. uniform L (rand_stream L SEED (N_SOURCES + i))) [0..<N_SOURCES]
       \<and> fst (run_stream L n (stream_init seed calls)) = fst (run_stream L' n (stream_init seed' calls'))"
proof -
  have "agree_from N_SOURCES L L'" using assms by (simp add: agree_from_def)
  then have "fst (run_stream L n (stream_init seed calls)) = fst (run_stream L' n (stream_init seed' calls'))"
    by (rule run_stream_agree [symmetric])
  then show ?thesis by (simp add: first_call_sources)
qed

text \<open>
  The sample \<open>rand\<close> of ISO C, whose first draw for \<open>SEED\<close> is 19081, against a library
  whose first ten draws are 0.
\<close>

theorem init_draws_never_observed_witness:
  "RAND_MAX example_libc = RAND_MAX other_init_libc
   \<and> (\<forall>k. rand_stream example_libc SEED (N_SOURCES + k) = rand_stream other_init_libc SEED (N_SOURCES + k))
   \<and> rand_stream example_libc SEED 0 = 19081 \<and> rand_stream other_init_libc SEED 0 = 0
   \<and> noise_sources (snd (dpi_flicker_noise example_libc (stream_init 1 0)))
       = map (\<lambda>i. uniform example_libc (rand_stream example_libc SEED (N_SOURCES + i))) [0..<N_SOURCES]
   \<and> fst (run_stream example_libc 3 (stream_init 1 0))
       = fst (run_stream other_init_libc 3 (stream_init 1 0))"
proof -
  have m: "RAND_MAX example_libc = RAND_MAX other_init_libc"
    by (simp add: other_init_libc_def)
  have s: "\<forall>k\<ge>N_SOURCES. rand_stream example_libc SEED k = rand_stream other_init_libc SEED k"
    by (simp add: other_init_libc_def)
  have d: "rand_stream example_libc SEED 0 = 19081" "rand_stream other_init_libc SEED 0 = 0"
    by (simp_all add: other_init_libc_def example_libc_def SEED_def N_SOURCES_def)
  from init_draws_never_observed [OF m s, of 1 0 3 1 0] show ?thesis
    using m s d by simp
qed

end
